theory Spec2Isabelle
  imports Complex_Main
begin

section \<open>Tensors: the backend operations used by \<^verbatim>\<open>attn_augconv.py\<close>\<close>

text \<open>
  A tensor is a shape together with its entries in row-major order, which is the order
  the backend's \<^verbatim>\<open>reshape\<close> preserves. Every backend operation the layer calls
  is a function returning either an error or a tensor: an operation whose shape
  precondition is violated raises, and the layer never catches. The operations that only
  move entries are polymorphic in the entries; where the layer computes with them, real
  numbers stand for the backend's floating-point numbers.
\<close>

datatype error =
    ValueError string
  | AttributeError string
  | IndexError
  | ZeroDivisionError
  | InvalidArgumentError string

record 'a tensor =
  shape :: "nat list"
  elems :: "'a list"

definition bindE :: "error + 'a \<Rightarrow> ('a \<Rightarrow> error + 'b) \<Rightarrow> error + 'b" where
  "bindE m f = (case m of Inl e \<Rightarrow> Inl e | Inr a \<Rightarrow> f a)"

text \<open>Row-major offset of a multi-index, and the multi-index of an offset.\<close>

fun ravel :: "nat list \<Rightarrow> nat list \<Rightarrow> nat" where
  "ravel (n # ns) (i # js) = i * prod_list ns + ravel ns js"
| "ravel _ _ = 0"

fun unravel :: "nat list \<Rightarrow> nat \<Rightarrow> nat list" where
  "unravel [] k = []"
| "unravel (n # ns) k = (k div prod_list ns) # unravel ns (k mod prod_list ns)"

definition valid_index :: "nat list \<Rightarrow> nat list \<Rightarrow> bool" where
  "valid_index s idx = list_all2 (<) idx s"

definition wf_tensor :: "'a tensor \<Rightarrow> bool" where
  "wf_tensor t = (length (elems t) = prod_list (shape t))"

text \<open>The entry of a tensor at a multi-index (meaningful for indices in range).\<close>

definition entry :: "'a tensor \<Rightarrow> nat list \<Rightarrow> 'a" where
  "entry t idx = elems t ! ravel (shape t) idx"

text \<open>The tensor of a given shape whose entry at each multi-index is given by a function.\<close>

definition tabulate :: "nat list \<Rightarrow> (nat list \<Rightarrow> 'a) \<Rightarrow> 'a tensor" where
  "tabulate s f = \<lparr>shape = s, elems = map (\<lambda>k. f (unravel s k)) [0..<prod_list s]\<rparr>"

text \<open>\<^verbatim>\<open>K.shape(x)\<close>: the dimensions as Python integers.\<close>

definition K_shape :: "'a tensor \<Rightarrow> int list" where
  "K_shape t = map int (shape t)"

text \<open>\<^verbatim>\<open>K.zeros(shape)\<close>: a negative dimension is rejected.\<close>

definition K_zeros :: "int list \<Rightarrow> error + ('a::zero) tensor" where
  "K_zeros s =
     (if \<exists>d\<in>set s. d < 0 then Inl (InvalidArgumentError ''zeros'')
      else Inr \<lparr>shape = map nat s, elems = replicate (prod_list (map nat s)) 0\<rparr>)"

text \<open>
  \<^verbatim>\<open>K.reshape(x, shape)\<close>: the entries keep their row-major order. At most one
  dimension may be \<^verbatim>\<open>-1\<close>; it is inferred from the number of entries, which the
  product of the other dimensions must divide (and that product must not be zero).
\<close>

definition K_reshape :: "'a tensor \<Rightarrow> int list \<Rightarrow> error + 'a tensor" where
  "K_reshape t s =
     (if \<exists>d\<in>set s. d < - 1 then Inl (InvalidArgumentError ''reshape'')
      else if length (filter (\<lambda>d. d = - 1) s) = 0 then
        (if prod_list (map nat s) = length (elems t)
         then Inr \<lparr>shape = map nat s, elems = elems t\<rparr>
         else Inl (InvalidArgumentError ''reshape''))
      else if length (filter (\<lambda>d. d = - 1) s) = 1 then
        (let known = prod_list (map nat (filter (\<lambda>d. d \<noteq> - 1) s)) in
         if known = 0 \<or> length (elems t) mod known \<noteq> 0
         then Inl (InvalidArgumentError ''reshape'')
         else Inr \<lparr>shape = map (\<lambda>d. if d = - 1 then length (elems t) div known else nat d) s,
                   elems = elems t\<rparr>)
      else Inl (InvalidArgumentError ''reshape''))"

text \<open>
  \<^verbatim>\<open>K.concatenate([a, b], axis)\<close>: the ranks agree and so do all dimensions other
  than \<^verbatim>\<open>axis\<close>; along \<^verbatim>\<open>axis\<close> the entries of \<^verbatim>\<open>a\<close> come first.
\<close>

definition K_concatenate :: "'a tensor \<Rightarrow> 'a tensor \<Rightarrow> nat \<Rightarrow> error + 'a tensor" where
  "K_concatenate a b axis =
     (if length (shape a) = length (shape b) \<and> axis < length (shape a)
         \<and> (shape a)[axis := 0] = (shape b)[axis := 0]
      then Inr (tabulate ((shape a)[axis := shape a ! axis + shape b ! axis])
             (\<lambda>idx. if idx ! axis < shape a ! axis then entry a idx
                     else entry b (idx[axis := idx ! axis - shape a ! axis])))
      else Inl (InvalidArgumentError ''concatenate''))"

text \<open>
  Python's normalisation of the bounds of a slice \<^verbatim>\<open>start:stop\<close> (step 1) against
  a dimension \<^verbatim>\<open>n\<close>: a missing bound is the end of the axis, a negative bound counts
  from the end, and both are clamped to the axis.
\<close>

definition slice_bound :: "nat \<Rightarrow> int option \<Rightarrow> nat \<Rightarrow> nat" where
  "slice_bound n b dflt =
     (case b of None \<Rightarrow> dflt
      | Some i \<Rightarrow> if i < 0 then nat (max 0 (i + int n)) else min (nat i) n)"

definition slice_start :: "nat \<Rightarrow> int option \<times> int option \<Rightarrow> nat" where
  "slice_start n r = slice_bound n (fst r) 0"

definition slice_len :: "nat \<Rightarrow> int option \<times> int option \<Rightarrow> nat" where
  "slice_len n r = slice_bound n (snd r) n - slice_bound n (fst r) 0"

text \<open>\<^verbatim>\<open>x[r0, r1, ...]\<close> with one slice per axis.\<close>

definition getitem :: "'a tensor \<Rightarrow> (int option \<times> int option) list \<Rightarrow> error + 'a tensor" where
  "getitem t rs =
     (if length rs \<noteq> length (shape t) then Inl IndexError
      else Inr (tabulate (map2 slice_len (shape t) rs)
             (\<lambda>idx. entry t (map2 (+) (map2 slice_start (shape t) rs) idx))))"

text \<open>
  \<^verbatim>\<open>K.permute_dimensions(x, pattern)\<close>: axis \<^verbatim>\<open>j\<close> of the result is axis
  \<^verbatim>\<open>pattern[j]\<close> of the argument; the pattern is a permutation of the axes.
\<close>

definition index_of :: "nat list \<Rightarrow> nat \<Rightarrow> nat" where
  "index_of perm a = length (takeWhile (\<lambda>p. p \<noteq> a) perm)"

definition unpermute :: "nat list \<Rightarrow> nat list \<Rightarrow> nat list" where
  "unpermute perm idx = map (\<lambda>a. idx ! index_of perm a) [0..<length perm]"

definition K_permute_dimensions :: "'a tensor \<Rightarrow> nat list \<Rightarrow> error + 'a tensor" where
  "K_permute_dimensions t perm =
     (if distinct perm \<and> (\<forall>p\<in>set perm. p < length (shape t)) \<and> length perm = length (shape t)
      then Inr (tabulate (map (\<lambda>p. shape t ! p) perm) (\<lambda>idx. entry t (unpermute perm idx)))
      else Inl (InvalidArgumentError ''transpose''))"

text \<open>
  \<^verbatim>\<open>tf.split(x, size_splits, axis=-1)\<close>: the sizes add up to the last dimension;
  one size may be \<^verbatim>\<open>-1\<close> and is then what the others leave.
\<close>

definition resolve_sizes :: "int list \<Rightarrow> nat \<Rightarrow> error + nat list" where
  "resolve_sizes sizes c =
     (if (\<exists>d\<in>set sizes. d < - 1) \<or> 1 < length (filter (\<lambda>d. d = - 1) sizes)
      then Inl (InvalidArgumentError ''split'')
      else
        let known = sum_list (filter (\<lambda>d. d \<noteq> - 1) sizes) in
        if length (filter (\<lambda>d. d = - 1) sizes) = 1 then
          (if int c < known then Inl (InvalidArgumentError ''split'')
           else Inr (map (\<lambda>d. if d = - 1 then c - nat known else nat d) sizes))
        else if known = int c then Inr (map nat sizes)
        else Inl (InvalidArgumentError ''split''))"

definition tf_split :: "'a tensor \<Rightarrow> int list \<Rightarrow> error + 'a tensor list" where
  "tf_split t sizes =
     (if shape t = [] then Inl (InvalidArgumentError ''split'')
      else bindE (resolve_sizes sizes (last (shape t))) (\<lambda>szs.
        Inr (map (\<lambda>i. tabulate (butlast (shape t) @ [szs ! i])
                   (\<lambda>idx. entry t (butlast idx @ [last idx + sum_list (take i szs)])))
              [0..<length szs])))"

text \<open>\<^verbatim>\<open>x * s\<close> for a scalar \<^verbatim>\<open>s\<close>: every entry is multiplied.\<close>

definition tensor_scale :: "('a::times) tensor \<Rightarrow> 'a \<Rightarrow> 'a tensor" where
  "tensor_scale t s = \<lparr>shape = shape t, elems = map (\<lambda>v. v * s) (elems t)\<rparr>"

text \<open>
  Broadcasting: two shapes are aligned at their last axes, and two dimensions are
  compatible when they are equal or one of them is one. An index into the broadcast
  shape reads an argument at its own last axes, at zero along an axis of size one.
\<close>

fun broadcast_rev :: "nat list \<Rightarrow> nat list \<Rightarrow> nat list option" where
  "broadcast_rev [] ys = Some ys"
| "broadcast_rev xs [] = Some xs"
| "broadcast_rev (x # xs) (y # ys) =
     (if x = y \<or> y = 1 then map_option ((#) x) (broadcast_rev xs ys)
      else if x = 1 then map_option ((#) y) (broadcast_rev xs ys)
      else None)"

definition broadcast_index :: "nat list \<Rightarrow> nat list \<Rightarrow> nat list" where
  "broadcast_index s idx =
     map2 (\<lambda>i n. if n = 1 then 0 else i) (drop (length idx - length s) idx) s"

text \<open>
  \<^verbatim>\<open>tf.matmul(a, b, transpose_b=tb)\<close>: the product over the last two axes. Both
  arguments have at least two axes; the leading (batch) axes of the two are broadcast
  against each other, aligned at the last of them, as for \<^verbatim>\<open>a + b\<close>.
\<close>

definition tf_matmul :: "('a::semiring_0) tensor \<Rightarrow> 'a tensor \<Rightarrow> bool \<Rightarrow> error + 'a tensor" where
  "tf_matmul a b transpose_b =
     (let ra = length (shape a); rb = length (shape b) in
      if ra < 2 \<or> rb < 2 then Inl (InvalidArgumentError ''matmul'')
      else
        let ba = take (ra - 2) (shape a); bb = take (rb - 2) (shape b);
            m = shape a ! (ra - 2); k = shape a ! (ra - 1);
            kb = (if transpose_b then shape b ! (rb - 1) else shape b ! (rb - 2));
            n = (if transpose_b then shape b ! (rb - 2) else shape b ! (rb - 1))
        in
        if k \<noteq> kb then Inl (InvalidArgumentError ''matmul'')
        else
          case broadcast_rev (rev ba) (rev bb) of
            None \<Rightarrow> Inl (InvalidArgumentError ''matmul'')
          | Some r \<Rightarrow>
              let nb = length r in
              Inr (tabulate (rev r @ [m, n])
                 (\<lambda>idx. sum_list (map (\<lambda>c.
                      entry a (broadcast_index ba (take nb idx) @ [idx ! nb, c])
                      * entry b (broadcast_index bb (take nb idx)
                            @ (if transpose_b then [idx ! (nb + 1), c] else [c, idx ! (nb + 1)])))
                    [0..<k]))))"

text \<open>\<^verbatim>\<open>tf.einsum('bhxyd,md->bhxym', q, rel_k)\<close>.\<close>

definition tf_einsum :: "('a::semiring_0) tensor \<Rightarrow> 'a tensor \<Rightarrow> error + 'a tensor" where
  "tf_einsum q rel_k =
     (if length (shape q) \<noteq> 5 \<or> length (shape rel_k) \<noteq> 2 \<or> shape q ! 4 \<noteq> shape rel_k ! 1
      then Inl (InvalidArgumentError ''einsum'')
      else Inr (tabulate (take 4 (shape q) @ [shape rel_k ! 0])
             (\<lambda>idx. sum_list (map (\<lambda>d.
                  entry q (take 4 idx @ [d]) * entry rel_k [idx ! 4, d])
                [0..<shape q ! 4]))))"

text \<open>\<^verbatim>\<open>K.expand_dims(x, axis)\<close>: a new axis of size one; the entries are unchanged.\<close>

definition K_expand_dims :: "'a tensor \<Rightarrow> nat \<Rightarrow> error + 'a tensor" where
  "K_expand_dims t axis =
     (if length (shape t) < axis then Inl (InvalidArgumentError ''expand_dims'')
      else Inr \<lparr>shape = take axis (shape t) @ [1] @ drop axis (shape t), elems = elems t\<rparr>)"

text \<open>\<^verbatim>\<open>K.tile(x, n)\<close>: one multiple per axis, none negative.\<close>

definition K_tile :: "'a tensor \<Rightarrow> int list \<Rightarrow> error + 'a tensor" where
  "K_tile t reps =
     (if length reps \<noteq> length (shape t) \<or> (\<exists>r\<in>set reps. r < 0)
      then Inl (InvalidArgumentError ''tile'')
      else Inr (tabulate (map2 (\<lambda>n r. n * nat r) (shape t) reps)
             (\<lambda>idx. entry t (map2 (\<lambda>i n. i mod n) idx (shape t)))))"

text \<open>\<^verbatim>\<open>a + b\<close>, the two shapes being broadcast.\<close>

definition tensor_add :: "('a::plus) tensor \<Rightarrow> 'a tensor \<Rightarrow> error + 'a tensor" where
  "tensor_add a b =
     (case broadcast_rev (rev (shape a)) (rev (shape b)) of
        None \<Rightarrow> Inl (InvalidArgumentError ''add'')
      | Some r \<Rightarrow> Inr (tabulate (rev r)
          (\<lambda>idx. entry a (broadcast_index (shape a) idx) + entry b (broadcast_index (shape b) idx))))"

text \<open>
  Modelled from the spec: \<^verbatim>\<open>K.softmax(x, axis=-1)\<close> is a kernel of the backend and
  is not in the source file. Over the reals it is the row-wise softmax over the last
  axis, the largest entry of the row being subtracted before exponentiating: the
  exponentials of the entries less the largest one, divided by their sum.
\<close>

definition K_softmax :: "real tensor \<Rightarrow> error + real tensor" where
  "K_softmax t =
     (if shape t = [] then Inl (InvalidArgumentError ''softmax'')
      else Inr (tabulate (shape t)
             (\<lambda>idx. let row = map (\<lambda>j. entry t (butlast idx @ [j])) [0..<last (shape t)];
                        m = Max (set row)
                    in exp (entry t idx - m) / sum_list (map (\<lambda>v. exp (v - m)) row))))"

section \<open>Python values\<close>

text \<open>
  The constructor arguments \<^verbatim>\<open>depth_k\<close> and \<^verbatim>\<open>depth_v\<close> are inspected with
  \<^verbatim>\<open>type(...) != int\<close>, so they are modelled with their dynamic type.
\<close>

datatype pyval = PyInt int | PyFloat real | PyBool bool | PyStr string | PyNone

text \<open>Integer floor division \<^verbatim>\<open>a // b\<close> and true division \<^verbatim>\<open>a / b\<close>.\<close>

definition py_floordiv :: "int \<Rightarrow> int \<Rightarrow> error + int" where
  "py_floordiv a b = (if b = 0 then Inl ZeroDivisionError else Inr (a div b))"

definition py_truediv :: "int \<Rightarrow> int \<Rightarrow> error + real" where
  "py_truediv a b = (if b = 0 then Inl ZeroDivisionError else Inr (real_of_int a / real_of_int b))"

text \<open>
  \<^verbatim>\<open>x ** -0.5\<close> for a float \<^verbatim>\<open>x\<close>: zero raises; a negative base gives a complex
  number, which no tensor of reals can be multiplied by.
\<close>

definition py_pow_neg_half :: "real \<Rightarrow> error + real" where
  "py_pow_neg_half x =
     (if x = 0 then Inl ZeroDivisionError
      else if x < 0 then Inl (ValueError ''complex'')
      else Inr (x powr (- 1 / 2)))"

text \<open>Reading an attribute that may not have been assigned yet.\<close>

definition attr :: "'a option \<Rightarrow> string \<Rightarrow> error + 'a" where
  "attr v name = (case v of None \<Rightarrow> Inl (AttributeError name) | Some a \<Rightarrow> Inr a)"

section \<open>The layer\<close>

text \<open>
  The attributes of an \<^verbatim>\<open>AttentionAugmentation\<close> object. \<^verbatim>\<open>_shape\<close>, the two
  tables, and \<^verbatim>\<open>_batch\<close>, \<^verbatim>\<open>_height\<close>, \<^verbatim>\<open>_width\<close> are assigned after
  construction (by \<^verbatim>\<open>build\<close> and \<^verbatim>\<open>split_heads_2d\<close>); the fields for the
  attributes whose names start with an underscore are written \<open>u_shape\<close>, \<open>u_batch\<close>,
  \<open>u_height\<close> and \<open>u_width\<close>.
\<close>

record layer =
  strides :: "int \<times> int"
  depth_k :: int
  depth_v :: int
  num_heads :: int
  relative :: bool
  axis :: int
  u_shape :: "nat list option"
  key_relative_w :: "real tensor option"
  key_relative_h :: "real tensor option"
  u_batch :: "int option"
  u_height :: "int option"
  u_width :: "int option"

text \<open>A computation that may raise and may assign attributes of the layer.\<close>

definition bindS ::
  "(error + 'a) \<times> layer \<Rightarrow> ('a \<Rightarrow> layer \<Rightarrow> (error + 'b) \<times> layer) \<Rightarrow> (error + 'b) \<times> layer" where
  "bindS m f = (case m of (Inl e, self) \<Rightarrow> (Inl e, self) | (Inr a, self) \<Rightarrow> f a self)"

text \<open>
  \<^verbatim>\<open>__init__\<close> (lines 19--34). The last argument is what
  \<^verbatim>\<open>K.image_data_format()\<close> returns at construction.
\<close>

definition init ::
  "pyval \<Rightarrow> pyval \<Rightarrow> int \<Rightarrow> bool \<Rightarrow> int \<times> int \<Rightarrow> string \<Rightarrow> error + layer" where
  "init dk dv nh rel strd image_data_format =
     (case dk of
        PyInt k \<Rightarrow>
          (case dv of
             PyInt v \<Rightarrow>
               Inr \<lparr>strides = strd, depth_k = k, depth_v = v, num_heads = nh, relative = rel,
                    axis = (if image_data_format = ''channels_first'' then 1 else - 1),
                    u_shape = None, key_relative_w = None, key_relative_h = None,
                    u_batch = None, u_height = None, u_width = None\<rparr>
           | _ \<Rightarrow> Inl (ValueError ''Depth v must be an integer number of filters !''))
      | _ \<Rightarrow> Inl (ValueError ''Depth k must be an integer number of filters !''))"

text \<open>
  \<^verbatim>\<open>add_weight(name, shape, initializer)\<close>: a table of the given shape whose entries
  are the initializer's samples; a negative dimension is rejected.
\<close>

definition add_weight :: "int list \<Rightarrow> (nat \<Rightarrow> real) \<Rightarrow> error + real tensor" where
  "add_weight s initializer =
     (if \<exists>d\<in>set s. d < 0 then Inl (ValueError ''add_weight'')
      else Inr \<lparr>shape = map nat s, elems = map initializer [0..<prod_list (map nat s)]\<rparr>)"

text \<open>
  \<^verbatim>\<open>build\<close> (lines 36--56). The input shape has four entries, of which the first
  (the batch size) is not read. The samples drawn by the two random initializers are
  arguments.
\<close>

definition build :: "layer \<Rightarrow> nat list \<Rightarrow> (nat \<Rightarrow> real) \<Rightarrow> (nat \<Rightarrow> real) \<Rightarrow> error + layer" where
  "build self input_shape init_w init_h =
     (let self = self\<lparr>u_shape := Some input_shape\<rparr> in
      if length input_shape \<noteq> 4 then Inl (ValueError ''unpack'')
      else
        let height = int (if axis self = 1 then input_shape ! 2 else input_shape ! 1);
            width = int (if axis self = 1 then input_shape ! 3 else input_shape ! 2)
        in
        if relative self then
          bindE (py_floordiv (depth_k self) (num_heads self)) (\<lambda>dk_heads.
          bindE (py_pow_neg_half (real_of_int dk_heads)) (\<lambda>stddev_w.
          bindE (add_weight [2 * width - 1, dk_heads] init_w) (\<lambda>w.
          bindE (py_pow_neg_half (real_of_int dk_heads)) (\<lambda>stddev_h.
          bindE (add_weight [2 * height - 1, dk_heads] init_h) (\<lambda>h.
          Inr (self\<lparr>key_relative_w := Some w, key_relative_h := Some h\<rparr>))))))
        else Inr (self\<lparr>key_relative_w := None, key_relative_h := None\<rparr>))"

text \<open>\<^verbatim>\<open>compute_output_shape\<close> (lines 102--105).\<close>

definition compute_output_shape :: "layer \<Rightarrow> int list \<Rightarrow> error + int list" where
  "compute_output_shape self input_shape =
     (let n = int (length input_shape);
          i = (if axis self < 0 then axis self + n else axis self)
      in if 0 \<le> i \<and> i < n then Inr (input_shape[nat i := depth_v self]) else Inl IndexError)"

text \<open>\<^verbatim>\<open>split_heads_2d\<close> (lines 107--128).\<close>

definition split_heads_2d :: "layer \<Rightarrow> 'a tensor \<Rightarrow> (error + 'a tensor) \<times> layer" where
  "split_heads_2d self ip =
     (case u_shape self of
        None \<Rightarrow> (Inl (AttributeError ''_shape''), self)
      | Some shp \<Rightarrow>
          if length (K_shape ip) < length shp \<or> length shp < 4 then (Inl IndexError, self)
          else
            let tensor_shape = take (length shp) (K_shape ip);
                batch = tensor_shape ! 0;
                height = tensor_shape ! 1;
                width = tensor_shape ! 2;
                channels = tensor_shape ! 3;
                self = self\<lparr>u_batch := Some batch, u_height := Some height, u_width := Some width\<rparr>
            in
            (bindE (py_floordiv channels (num_heads self)) (\<lambda>c.
             bindE (K_reshape ip [batch, height, width, num_heads self, c]) (\<lambda>split.
             K_permute_dimensions split [0, 3, 1, 2, 4])), self))"

text \<open>\<^verbatim>\<open>combine_heads_2d\<close> (lines 172--182).\<close>

definition combine_heads_2d :: "'a tensor \<Rightarrow> error + 'a tensor" where
  "combine_heads_2d inputs =
     bindE (K_permute_dimensions inputs [0, 2, 3, 1, 4]) (\<lambda>transposed.
       let shp = K_shape transposed in
       if length shp < 5 then Inl IndexError
       else
         let shp = take 5 shp; a = shp ! 3; b = shp ! 4 in
         K_reshape transposed (take 3 shp @ [a * b]))"

section \<open>The relative-to-absolute transform\<close>

text \<open>
  \<^verbatim>\<open>AttentionAugmentation.rel_to_abs\<close> (lines 159--170). The first three dimensions
  of the argument are read; the last one is not inspected.
\<close>

definition rel_to_abs :: "('a::zero) tensor \<Rightarrow> error + 'a tensor" where
  "rel_to_abs x =
     (let shp = K_shape x in
      if length shp < 3 then Inl IndexError
      else
        let B = shp ! 0; Nh = shp ! 1; L = shp ! 2 in
        bindE (K_zeros [B, Nh, L, 1]) (\<lambda>col_pad.
        bindE (K_concatenate x col_pad 3) (\<lambda>x'.
        bindE (K_reshape x' [B, Nh, L * 2 * L]) (\<lambda>flat_x.
        bindE (K_zeros [B, Nh, L - 1]) (\<lambda>flat_pad.
        bindE (K_concatenate flat_x flat_pad 2) (\<lambda>flat_x_padded.
        bindE (K_reshape flat_x_padded [B, Nh, L + 1, 2 * L - 1]) (\<lambda>final_x.
        getitem final_x
          [(None, None), (None, None), (None, Some L), (Some (L - 1), None)])))))))"

text \<open>\<^verbatim>\<open>relative_logits_1d\<close> (lines 148--157).\<close>

definition relative_logits_1d ::
  "layer \<Rightarrow> real tensor \<Rightarrow> real tensor option \<Rightarrow> int \<Rightarrow> int \<Rightarrow> nat list \<Rightarrow> error + real tensor" where
  "relative_logits_1d self q rel_k H W transpose_mask =
     bindE (attr rel_k ''key_relative'') (\<lambda>rel_k.
     bindE (tf_einsum q rel_k) (\<lambda>rel_logits.
     bindE (K_reshape rel_logits [- 1, num_heads self * H, W, 2 * W - 1]) (\<lambda>rel_logits.
     bindE (rel_to_abs rel_logits) (\<lambda>rel_logits.
     bindE (K_reshape rel_logits [- 1, num_heads self, H, W, W]) (\<lambda>rel_logits.
     bindE (K_expand_dims rel_logits 3) (\<lambda>rel_logits.
     bindE (K_tile rel_logits [1, 1, 1, H, 1, 1]) (\<lambda>rel_logits.
     bindE (K_permute_dimensions rel_logits transpose_mask) (\<lambda>rel_logits.
     K_reshape rel_logits [- 1, num_heads self, H * W, H * W]))))))))"

text \<open>\<^verbatim>\<open>relative_logits\<close> (lines 130--146): the width logits are computed first.\<close>

definition relative_logits :: "layer \<Rightarrow> real tensor \<Rightarrow> error + real tensor \<times> real tensor" where
  "relative_logits self q =
     (let shp = K_shape q in
      if length shp < 5 then Inl IndexError
      else
        let height = shp ! 2; width = shp ! 3 in
        bindE (relative_logits_1d self q (key_relative_w self) height width [0, 1, 2, 4, 3, 5])
          (\<lambda>rel_logits_w.
        bindE (K_permute_dimensions q [0, 1, 3, 2, 4]) (\<lambda>qt.
        bindE (relative_logits_1d self qt (key_relative_h self) width height [0, 1, 4, 2, 5, 3])
          (\<lambda>rel_logits_h.
        Inr (rel_logits_h, rel_logits_w)))))"

section \<open>The forward pass\<close>

text \<open>
  The shape \<^verbatim>\<open>K.stack([self._batch, self.num_heads, self._height * self._width,
  depth // self.num_heads])\<close> of lines 75--77.
\<close>

definition flat_shape :: "layer \<Rightarrow> int \<Rightarrow> error + int list" where
  "flat_shape self depth =
     bindE (attr (u_batch self) ''_batch'') (\<lambda>b.
     bindE (attr (u_height self) ''_height'') (\<lambda>h.
     bindE (attr (u_width self) ''_width'') (\<lambda>w.
     bindE (py_floordiv depth (num_heads self)) (\<lambda>d.
     Inr [b, num_heads self, h * w, d]))))"

text \<open>
  \<^verbatim>\<open>call\<close>, lines 59--77: the layout is normalised, the input is cut into query,
  key and value, the heads are split, the query is scaled and the three are flattened.
  The result is the scaled query and the three flattened tensors.
\<close>

definition call_qkv ::
  "layer \<Rightarrow> real tensor
     \<Rightarrow> (error + real tensor \<times> real tensor \<times> real tensor \<times> real tensor) \<times> layer" where
  "call_qkv self inputs =
     bindS (if axis self = 1 then K_permute_dimensions inputs [0, 2, 3, 1] else Inr inputs, self)
       (\<lambda>inputs self.
     bindS (tf_split inputs [depth_k self, depth_k self, depth_v self], self) (\<lambda>qkv self.
     case qkv of
       [q, k, v] \<Rightarrow>
         bindS (split_heads_2d self q) (\<lambda>q self.
         bindS (split_heads_2d self k) (\<lambda>k self.
         bindS (split_heads_2d self v) (\<lambda>v self.
         bindS (py_truediv (depth_k self) (num_heads self), self) (\<lambda>depth_k_heads self.
         bindS (py_pow_neg_half depth_k_heads, self) (\<lambda>scale self.
         let q = tensor_scale q scale in
         bindS (bindE (flat_shape self (depth_k self)) (K_reshape q), self) (\<lambda>flat_q self.
         bindS (bindE (flat_shape self (depth_k self)) (K_reshape k), self) (\<lambda>flat_k self.
         bindS (bindE (flat_shape self (depth_v self)) (K_reshape v), self) (\<lambda>flat_v self.
         (Inr (q, flat_q, flat_k, flat_v), self)))))))))
     | _ \<Rightarrow> (Inl (ValueError ''unpack''), self)))"

text \<open>
  \<^verbatim>\<open>call\<close>, lines 59--80: the content logits, with the scaled query and the
  flattened value tensor.
\<close>

definition call_content ::
  "layer \<Rightarrow> real tensor \<Rightarrow> (error + real tensor \<times> real tensor \<times> real tensor) \<times> layer" where
  "call_content self inputs =
     bindS (call_qkv self inputs) (\<lambda>(q, flat_q, flat_k, flat_v) self.
     bindS (tf_matmul flat_q flat_k True, self) (\<lambda>logits self.
     (Inr (q, logits, flat_v), self)))"

text \<open>
  \<^verbatim>\<open>call\<close>, lines 59--85: the logits handed to the softmax, with the flattened
  value tensor.
\<close>

definition call_logits ::
  "layer \<Rightarrow> real tensor \<Rightarrow> (error + real tensor \<times> real tensor) \<times> layer" where
  "call_logits self inputs =
     bindS (call_content self inputs) (\<lambda>(q, logits, flat_v) self.
     if relative self then
       bindS (relative_logits self q, self) (\<lambda>(h_rel_logits, w_rel_logits) self.
       bindS (tensor_add logits h_rel_logits, self) (\<lambda>logits self.
       bindS (tensor_add logits w_rel_logits, self) (\<lambda>logits self.
       (Inr (logits, flat_v), self))))
     else (Inr (logits, flat_v), self))"

text \<open>
  \<^verbatim>\<open>call\<close>, lines 87--100: softmax, aggregation of the values, recombination of
  the heads, and the caller's layout restored.
\<close>

definition call_attend ::
  "layer \<Rightarrow> real tensor \<Rightarrow> real tensor \<Rightarrow> (error + real tensor) \<times> layer" where
  "call_attend self logits flat_v =
     bindS (K_softmax logits, self) (\<lambda>weights self.
     bindS (tf_matmul weights flat_v False, self) (\<lambda>attn_out self.
     bindS (bindE (attr (u_batch self) ''_batch'') (\<lambda>b.
            bindE (attr (u_height self) ''_height'') (\<lambda>h.
            bindE (attr (u_width self) ''_width'') (\<lambda>w.
            bindE (py_floordiv (depth_v self) (num_heads self)) (\<lambda>d.
            K_reshape attn_out [b, num_heads self, h, w, d])))), self) (\<lambda>attn_out self.
     bindS (combine_heads_2d attn_out, self) (\<lambda>attn_out self.
     if axis self = 1 then (K_permute_dimensions attn_out [0, 3, 1, 2], self)
     else (Inr attn_out, self)))))"

text \<open>\<^verbatim>\<open>call\<close> (lines 58--100): the stages above, one after the other.\<close>

definition call :: "layer \<Rightarrow> real tensor \<Rightarrow> (error + real tensor) \<times> layer" where
  "call self inputs =
     bindS (call_logits self inputs) (\<lambda>(logits, flat_v) self. call_attend self logits flat_v)"

text \<open>
  Two states of a layer with the same constructor arguments, the same \<^verbatim>\<open>_shape\<close> and
  the same tables: they differ at most in \<^verbatim>\<open>_batch\<close>, \<^verbatim>\<open>_height\<close> and
  \<^verbatim>\<open>_width\<close>, the attributes that \<^verbatim>\<open>split_heads_2d\<close> assigns.
\<close>

definition same_parameters :: "layer \<Rightarrow> layer \<Rightarrow> bool" where
  "same_parameters a b =
     (b = a\<lparr>u_batch := u_batch b, u_height := u_height b, u_width := u_width b\<rparr>)"

text \<open>
  Two outcomes with the same result (a tensor or an error) and, when the result is not
  an error, the same state of the layer.
\<close>

definition agree :: "(error + 'a) \<times> layer \<Rightarrow> (error + 'a) \<times> layer \<Rightarrow> bool" where
  "agree m m' = (fst m = fst m' \<and> (case fst m of Inl e \<Rightarrow> True | Inr a \<Rightarrow> snd m = snd m'))"

section \<open>Index arithmetic\<close>

lemma ravel_less: "valid_index s idx \<Longrightarrow> ravel s idx < prod_list s"
  unfolding valid_index_def
proof (induction idx s rule: list_all2_induct)
  case Nil
  then show ?case by simp
next
  case (Cons i js n ns)
  have "i * prod_list ns + ravel ns js < i * prod_list ns + prod_list ns"
    using Cons.IH by simp
  also have "\<dots> = (Suc i) * prod_list ns" by simp
  also have "\<dots> \<le> n * prod_list ns"
    using Cons.hyps(1) by (intro mult_le_mono1) simp
  finally show ?case by simp
qed

lemma unravel_ravel: "valid_index s idx \<Longrightarrow> unravel s (ravel s idx) = idx"
  unfolding valid_index_def
proof (induction idx s rule: list_all2_induct)
  case Nil
  then show ?case by simp
next
  case (Cons i js n ns)
  have r: "ravel ns js < prod_list ns"
    using Cons.hyps(2) ravel_less by (simp add: valid_index_def)
  then show ?case using Cons.IH by simp
qed

lemma valid_unravel: "k < prod_list s \<Longrightarrow> valid_index s (unravel s k)"
  unfolding valid_index_def
proof (induction s arbitrary: k)
  case Nil
  then show ?case by simp
next
  case (Cons n ns)
  have pos: "0 < prod_list ns"
    using Cons.prems by (cases "prod_list ns = 0") simp_all
  have "k div prod_list ns < n"
    using Cons.prems pos by (simp add: less_mult_imp_div_less mult.commute)
  moreover have "list_all2 (<) (unravel ns (k mod prod_list ns)) ns"
    using Cons.IH pos by simp
  ultimately show ?case by simp
qed

lemma ravel_unravel: "k < prod_list s \<Longrightarrow> ravel s (unravel s k) = k"
proof (induction s arbitrary: k)
  case Nil
  then show ?case by simp
next
  case (Cons n ns)
  have pos: "0 < prod_list ns"
    using Cons.prems by (cases "prod_list ns = 0") simp_all
  then show ?case using Cons.IH [of "k mod prod_list ns"] by simp
qed

lemma shape_tabulate [simp]: "shape (tabulate s f) = s"
  by (simp add: tabulate_def)

lemma wf_tabulate [simp]: "wf_tensor (tabulate s f)"
  by (simp add: tabulate_def wf_tensor_def)

lemma length_elems_tabulate [simp]: "length (elems (tabulate s f)) = prod_list s"
  by (simp add: tabulate_def)

lemma entry_tabulate: "valid_index s idx \<Longrightarrow> entry (tabulate s f) idx = f idx"
  using ravel_less [of s idx] unravel_ravel [of s idx]
  by (simp add: entry_def tabulate_def)

lemma tensor_eqI:
  assumes "wf_tensor a" "wf_tensor b" "shape a = shape b"
    and "\<And>idx. valid_index (shape a) idx \<Longrightarrow> entry a idx = entry b idx"
  shows "a = b"
proof -
  have len: "length (elems a) = length (elems b)"
    using assms(1-3) by (simp add: wf_tensor_def)
  have "elems a = elems b"
  proof (rule nth_equalityI [OF len])
    fix k assume "k < length (elems a)"
    then have k: "k < prod_list (shape a)" using assms(1) by (simp add: wf_tensor_def)
    have "entry a (unravel (shape a) k) = entry b (unravel (shape a) k)"
      using assms(4) valid_unravel [OF k] by simp
    then show "elems a ! k = elems b ! k"
      using ravel_unravel [OF k] assms(3) by (simp add: entry_def)
  qed
  then show ?thesis using assms(3) by simp
qed

section \<open>The backend operations on given shapes\<close>

lemma bindE_Inr [simp]: "bindE (Inr a) f = f a" by (simp add: bindE_def)
lemma bindE_Inl [simp]: "bindE (Inl e) f = Inl e" by (simp add: bindE_def)

lemma K_zeros_nat: "K_zeros (map int s) = Inr \<lparr>shape = s, elems = replicate (prod_list s) 0\<rparr>"
  by (auto simp: K_zeros_def comp_def)

lemma K_reshape_nat:
  "prod_list s = length (elems t) \<Longrightarrow> K_reshape t (map int s) = Inr \<lparr>shape = s, elems = elems t\<rparr>"
proof -
  assume a: "prod_list s = length (elems t)"
  have f: "filter (\<lambda>d. d = - 1) (map int s) = []"
    by (induction s) auto
  have m: "map nat (map int s) = s" by (simp add: comp_def)
  show ?thesis unfolding K_reshape_def using a f m by (auto simp del: map_map)
qed

lemma entry_reshaped:
  assumes "valid_index (shape t) idx'" "ravel s idx = ravel (shape t) idx'"
  shows "entry \<lparr>shape = s, elems = elems t\<rparr> idx = entry t idx'"
  using assms by (simp add: entry_def)

lemma valid_index4 [simp]: "valid_index [A,B,C,D] [a,b,c,d] \<longleftrightarrow> a < A \<and> b < B \<and> c < C \<and> d < D"
  by (simp add: valid_index_def)
lemma valid_index3 [simp]: "valid_index [A,B,C] [a,b,c] \<longleftrightarrow> a < A \<and> b < B \<and> c < C"
  by (simp add: valid_index_def)


lemma K_concatenate_ok:
  assumes "length (shape a) = length (shape b)" "ax < length (shape a)"
     "(shape a)[ax := 0] = (shape b)[ax := 0]"
  shows "K_concatenate a b ax = Inr (tabulate ((shape a)[ax := shape a ! ax + shape b ! ax])
             (\<lambda>idx. if idx ! ax < shape a ! ax then entry a idx
                     else entry b (idx[ax := idx ! ax - shape a ! ax])))"
  using assms by (simp add: K_concatenate_def)


lemma ravel_merge34: "ravel [A, B, C, D] [a, b, c, d] = ravel [A, B, C * D] [a, b, c * D + d]"
  by (simp add: algebra_simps)

lemma skew_offset:
  fixes L i j :: nat
  assumes "i < L" "j < L"
  shows "i * (2 * L - 1) + (L - 1 + j) = i * (2 * L) + (j + (L - 1) - i)"
    and "i * (2 * L - 1) + (L - 1 + j) < L * 2 * L"
    and "j + (L - 1) - i < 2 * L - 1"
proof -
  obtain l where l: "L = Suc l" using assms(1) by (cases L) auto
  have il: "i \<le> l" using assms(1) l by simp
  show "i * (2 * L - 1) + (L - 1 + j) = i * (2 * L) + (j + (L - 1) - i)"
    using il by (simp add: l algebra_simps)
  show "j + (L - 1) - i < 2 * L - 1" using assms l by simp
  have "i * (2 * L - 1) + (L - 1 + j) \<le> l * (2 * L - 1) + (l + l)"
    using il assms(2) l by (intro add_mono mult_le_mono1) simp_all
  also have "\<dots> < L * 2 * L" by (simp add: l algebra_simps)
  finally show "i * (2 * L - 1) + (L - 1 + j) < L * 2 * L" .
qed

lemma rel_to_abs_unfold:
  fixes x :: "('a::zero) tensor"
  assumes sh: "shape x = [B, N, L, 2 * L - 1]" and L: "0 < L" and wf: "wf_tensor x"
  shows "\<exists>y. rel_to_abs x = Inr y \<and> shape y = [B, N, L, L] \<and> wf_tensor y \<and>
           (\<forall>b<B. \<forall>n<N. \<forall>i<L. \<forall>j<L. entry y [b, n, i, j] = entry x [b, n, i, j + (L - 1) - i])"
proof -
  define col_pad :: "'a tensor"
    where "col_pad = \<lparr>shape = [B,N,L,1], elems = replicate (prod_list [B,N,L,1]) 0\<rparr>"
  define x1 where "x1 = tabulate [B, N, L, 2 * L]
     (\<lambda>idx. if idx ! 3 < 2 * L - 1 then entry x idx else entry col_pad (idx[3 := idx ! 3 - (2 * L - 1)]))"
  define flat_x where "flat_x = \<lparr>shape = [B, N, L * 2 * L], elems = elems x1\<rparr>"
  define flat_pad :: "'a tensor"
    where "flat_pad = \<lparr>shape = [B,N,L - 1], elems = replicate (prod_list [B,N,L - 1]) 0\<rparr>"
  define fxp where "fxp = tabulate [B, N, L * 2 * L + (L - 1)]
     (\<lambda>idx. if idx ! 2 < L * 2 * L then entry flat_x idx else entry flat_pad (idx[2 := idx ! 2 - L * 2 * L]))"
  define final_x where "final_x = \<lparr>shape = [B, N, L + 1, 2 * L - 1], elems = elems fxp\<rparr>"
  define y where "y = tabulate [B, N, L, L] (\<lambda>idx. entry final_x (map2 (+) [0, 0, 0, L - 1] idx))"
  have z1: "K_zeros [int B, int N, int L, 1] = Inr col_pad"
    using K_zeros_nat [of "[B,N,L,1]"] by (simp add: col_pad_def)
  have c1: "K_concatenate x col_pad 3 = Inr x1"
    using L by (simp add: K_concatenate_ok sh col_pad_def x1_def cong: if_cong)
  have e1: "[int B, int N, int L * 2 * int L] = map int [B, N, L * 2 * L]" by simp
  have r1: "K_reshape x1 [int B, int N, int L * 2 * int L] = Inr flat_x"
    unfolding e1 flat_x_def by (rule K_reshape_nat) (simp add: x1_def)
  have z2: "K_zeros [int B, int N, int L - 1] = Inr flat_pad"
    using K_zeros_nat [of "[B,N,L - 1]"] L by (simp add: flat_pad_def)
  have c2: "K_concatenate flat_x flat_pad 2 = Inr fxp"
    by (simp add: K_concatenate_ok flat_x_def flat_pad_def fxp_def cong: if_cong)
  have L2: "(L + 1) * (2 * L - 1) = L * 2 * L + (L - 1)"
    using L by (cases L) (simp_all add: algebra_simps)
  have e2: "[int B, int N, int L + 1, 2 * int L - 1] = map int [B, N, L + 1, 2 * L - 1]"
    using L by simp
  have r2: "K_reshape fxp [int B, int N, int L + 1, 2 * int L - 1] = Inr final_x"
    unfolding e2 final_x_def by (rule K_reshape_nat) (simp add: fxp_def L2 del: One_nat_def)
  have nl: "nat (int L - 1) = L - 1" "2 * L - 1 - (L - 1) = L"
    using L by simp_all
  have g: "getitem final_x [(None, None), (None, None), (None, Some (int L)), (Some (int L - 1), None)] = Inr y"
    using L by (simp add: getitem_def final_x_def y_def slice_len_def slice_start_def slice_bound_def nl
        del: One_nat_def)
  have res: "rel_to_abs x = Inr y"
    unfolding rel_to_abs_def Let_def K_shape_def sh
    by (simp add: z1 c1 r1 z2 c2 r2 g)
  have ent: "entry y [b, n, i, j] = entry x [b, n, i, j + (L - 1) - i]"
    if b: "b < B" and n: "n < N" and i: "i < L" and j: "j < L" for b n i j
  proof -
    note sk = skew_offset [OF i j]
    let ?m = "i * (2 * L - 1) + (L - 1 + j)"
    have "entry y [b, n, i, j] = entry final_x [b, n, i, L - 1 + j]"
      using b n i j by (simp add: y_def entry_tabulate)
    also have "\<dots> = entry fxp [b, n, ?m]"
    proof -
      have "ravel [B, N, L + 1, 2 * L - 1] [b, n, i, L - 1 + j] = ravel (shape fxp) [b, n, ?m]"
        unfolding ravel_merge34 L2 by (simp add: fxp_def)
      moreover have "valid_index (shape fxp) [b, n, ?m]"
        using b n sk(2) by (simp add: fxp_def)
      ultimately show ?thesis
        unfolding final_x_def by (intro entry_reshaped)
    qed
    also have "\<dots> = entry flat_x [b, n, ?m]"
      using b n sk(2) by (simp add: fxp_def entry_tabulate)
    also have "\<dots> = entry x1 [b, n, i, j + (L - 1) - i]"
    proof -
      have "ravel [B, N, L * 2 * L] [b, n, ?m] = ravel [B, N, L * (2 * L)] [b, n, i * (2 * L) + (j + (L - 1) - i)]"
        unfolding sk(1) by (simp only: mult.assoc)
      also have "\<dots> = ravel (shape x1) [b, n, i, j + (L - 1) - i]"
        unfolding ravel_merge34 [symmetric] by (simp add: x1_def)
      finally have "ravel [B, N, L * 2 * L] [b, n, ?m] = ravel (shape x1) [b, n, i, j + (L - 1) - i]" .
      moreover have "valid_index (shape x1) [b, n, i, j + (L - 1) - i]"
        using b n i sk(3) by (simp add: x1_def)
      ultimately show ?thesis
        unfolding flat_x_def by (intro entry_reshaped)
    qed
    also have "\<dots> = entry x [b, n, i, j + (L - 1) - i]"
      using b n i sk(3) by (simp add: x1_def entry_tabulate)
    finally show ?thesis .
  qed
  show ?thesis
    using res ent by (intro exI [of _ y]) (simp add: y_def)
qed

lemma valid_index4E:
  assumes "valid_index [A, B, C, D] idx"
  obtains a b c d where "idx = [a, b, c, d]" "a < A" "b < B" "c < C" "d < D"
  using assms unfolding valid_index_def by (auto simp: list_all2_Cons2)

lemma entry_in_set: "wf_tensor t \<Longrightarrow> valid_index (shape t) idx \<Longrightarrow> entry t idx \<in> set (elems t)"
  using ravel_less [of "shape t" idx] by (simp add: entry_def wf_tensor_def)

lemma elems_subset:
  assumes "wf_tensor y"
    and "\<And>idx. valid_index (shape y) idx \<Longrightarrow> entry y idx \<in> S"
  shows "set (elems y) \<subseteq> S"
proof
  fix v assume "v \<in> set (elems y)"
  then obtain k where k: "k < length (elems y)" "v = elems y ! k"
    by (auto simp: in_set_conv_nth)
  then have kk: "k < prod_list (shape y)" using assms(1) by (simp add: wf_tensor_def)
  have "entry y (unravel (shape y) k) \<in> S"
    using assms(2) valid_unravel [OF kk] by simp
  then show "v \<in> S" using ravel_unravel [OF kk] k(2) by (simp add: entry_def)
qed

section \<open>The relative-to-absolute transform is the index mapping\<close>

text \<open>
  Claim C1. For every input of shape \<open>(B, N, L, 2L - 1)\<close>, \<open>rel_to_abs\<close> returns a
  tensor of shape \<open>(B, N, L, L)\<close> whose entry \<open>[b, n, i, j]\<close> is the input's entry
  \<open>[b, n, i, j - i + (L - 1)]\<close>, for all \<open>i, j < L\<close>; and every entry of the result
  is an entry of the input, so that no padding zero is in the output.
\<close>

theorem rel_to_abs_index_mapping:
  fixes x :: "('a::zero) tensor"
  assumes "shape x = [B, N, L, 2 * L - 1]" and "wf_tensor x" and "0 < L"
  shows "\<exists>y. rel_to_abs x = Inr y \<and> shape y = [B, N, L, L] \<and> wf_tensor y
           \<and> (\<forall>b<B. \<forall>n<N. \<forall>i<L. \<forall>j<L.
                 entry y [b, n, i, j] = entry x [b, n, i, j + (L - 1) - i])
           \<and> set (elems y) \<subseteq> set (elems x)"
proof -
  obtain y where y: "rel_to_abs x = Inr y" "shape y = [B, N, L, L]" "wf_tensor y"
    and ent: "\<And>b n i j. b < B \<Longrightarrow> n < N \<Longrightarrow> i < L \<Longrightarrow> j < L \<Longrightarrow>
                 entry y [b, n, i, j] = entry x [b, n, i, j + (L - 1) - i]"
    using rel_to_abs_unfold [OF assms(1) assms(3) assms(2)] by blast
  have "set (elems y) \<subseteq> set (elems x)"
  proof (rule elems_subset [OF y(3)])
    fix idx assume "valid_index (shape y) idx"
    then obtain b n i j where idx: "idx = [b, n, i, j]" and lt: "b < B" "n < N" "i < L" "j < L"
      unfolding y(2) by (rule valid_index4E)
    have "j + (L - 1) - i < 2 * L - 1" using lt by (rule_tac skew_offset(3))
    then have "entry x [b, n, i, j + (L - 1) - i] \<in> set (elems x)"
      using lt assms(1) by (intro entry_in_set [OF assms(2)]) simp
    then show "entry y idx \<in> set (elems x)" using ent lt idx by simp
  qed
  then show ?thesis using y ent by blast
qed

theorem rel_to_abs_index_mapping_witness:
  "\<exists>y. rel_to_abs \<lparr>shape = [1, 1, 2, 3], elems = [10, 11, 12, 20, 21, 22 :: int]\<rparr> = Inr y
     \<and> shape y = [1, 1, 2, 2]
     \<and> entry y [0, 0, 0, 0] = 11 \<and> entry y [0, 0, 0, 1] = 12
     \<and> entry y [0, 0, 1, 0] = 20 \<and> entry y [0, 0, 1, 1] = 21"
proof -
  let ?x = "\<lparr>shape = [1, 1, 2, 3], elems = [10, 11, 12, 20, 21, 22 :: int]\<rparr>"
  obtain y where y: "rel_to_abs ?x = Inr y" "shape y = [1, 1, 2, 2]"
    and ent: "\<forall>b<1. \<forall>n<1. \<forall>i<2. \<forall>j<2.
                entry y [b, n, i, j] = entry ?x [b, n, i, j + (2 - 1) - i]"
    using rel_to_abs_index_mapping [of ?x 1 1 2] by (auto simp: wf_tensor_def)
  have "entry y [0, 0, 0, 0] = 11" using ent [rule_format, of 0 0 0 0] by (simp add: entry_def)
  moreover have "entry y [0, 0, 0, 1] = 12" using ent [rule_format, of 0 0 0 1] by (simp add: entry_def)
  moreover have "entry y [0, 0, 1, 0] = 20" using ent [rule_format, of 0 0 1 0] by (simp add: entry_def)
  moreover have "entry y [0, 0, 1, 1] = 21" using ent [rule_format, of 0 0 1 1] by (simp add: entry_def)
  ultimately show ?thesis using y by blast
qed

text \<open>
  Claim C9. For \<open>L = 1\<close>, \<open>rel_to_abs\<close> on an input of shape \<open>(B, N, 1, 1)\<close>
  returns a tensor of the same shape with the same entries: the input itself.
\<close>

theorem rel_to_abs_single:
  fixes x :: "('a::zero) tensor"
  assumes "shape x = [B, N, 1, 1]" and "wf_tensor x"
  shows "rel_to_abs x = Inr x"
proof -
  have sh: "shape x = [B, N, 1, 2 * 1 - 1]" using assms(1) by simp
  obtain y where y: "rel_to_abs x = Inr y" "shape y = [B, N, 1, 1]" "wf_tensor y"
    and ent: "\<And>b n i j. b < B \<Longrightarrow> n < N \<Longrightarrow> i < 1 \<Longrightarrow> j < 1 \<Longrightarrow>
                 entry y [b, n, i, j] = entry x [b, n, i, j + (1 - 1) - i]"
    using rel_to_abs_unfold [OF sh _ assms(2)] by (metis zero_less_one)
  have "y = x"
  proof (rule tensor_eqI [OF y(3) assms(2)])
    show "shape y = shape x" using y(2) assms(1) by simp
    fix idx assume "valid_index (shape y) idx"
    then obtain b n i j where idx: "idx = [b, n, i, j]" and lt: "b < B" "n < N" "i < 1" "j < 1"
      unfolding y(2) by (rule valid_index4E)
    show "entry y idx = entry x idx" using ent [OF lt] lt idx by simp
  qed
  then show ?thesis using y(1) by simp
qed

theorem rel_to_abs_single_witness:
  "rel_to_abs \<lparr>shape = [2, 1, 1, 1], elems = [7, 9 :: int]\<rparr>
     = Inr \<lparr>shape = [2, 1, 1, 1], elems = [7, 9]\<rparr>"
  using rel_to_abs_single [of "\<lparr>shape = [2, 1, 1, 1], elems = [7, 9 :: int]\<rparr>" 2 1]
  by (simp add: wf_tensor_def)

section \<open>Splitting and combining heads\<close>

lemma valid_index5 [simp]:
  "valid_index [A,B,C,D,E] [a,b,c,d,e] \<longleftrightarrow> a < A \<and> b < B \<and> c < C \<and> d < D \<and> e < E"
  by (simp add: valid_index_def)

lemma ravel_merge45:
  "ravel [A, B, C, D, E] [a, b, c, d, e] = ravel [A, B, C, D * E] [a, b, c, d * E + e]"
  by (simp add: algebra_simps)

lemma unpermute_03124: "unpermute [0, 3, 1, 2, 4] [b, h, y, x, d] = [b, y, x, h, d]"
  by (simp add: unpermute_def index_of_def)

lemma unpermute_02314: "unpermute [0, 2, 3, 1, 4] [b, y, x, h, d] = [b, h, y, x, d]"
  by (simp add: unpermute_def index_of_def)

lemma K_permute_ok:
  assumes "distinct perm" "\<forall>p\<in>set perm. p < length (shape t)" "length perm = length (shape t)"
    and "s' = map (\<lambda>p. shape t ! p) perm"
  shows "K_permute_dimensions t perm = Inr (tabulate s' (\<lambda>idx. entry t (unpermute perm idx)))"
  using assms by (simp add: K_permute_dimensions_def)

lemma split_heads_2d_ok:
  assumes shp: "u_shape self = Some shp" "length shp = 4"
    and sh: "shape t = [B, H, W, C]" and wf: "wf_tensor t"
    and nh: "num_heads self = int nh" "0 < nh" "nh dvd C"
  shows "split_heads_2d self t =
     (Inr (tabulate [B, nh, H, W, C div nh]
            (\<lambda>idx. entry \<lparr>shape = [B, H, W, nh, C div nh], elems = elems t\<rparr>
                      (unpermute [0, 3, 1, 2, 4] idx))),
      self\<lparr>u_batch := Some (int B), u_height := Some (int H), u_width := Some (int W)\<rparr>)"
proof -
  have len: "length (elems t) = B * H * W * C" using wf sh by (simp add: wf_tensor_def)
  have C: "nh * (C div nh) = C" using nh(3) by simp
  have fd: "py_floordiv (int C) (int nh) = Inr (int (C div nh))"
    using nh(2) by (simp add: py_floordiv_def zdiv_int)
  have e: "[int B, int H, int W, int nh, int (C div nh)] = map int [B, H, W, nh, C div nh]" by simp
  have r: "K_reshape t [int B, int H, int W, int nh, int (C div nh)]
             = Inr \<lparr>shape = [B, H, W, nh, C div nh], elems = elems t\<rparr>"
    unfolding e by (rule K_reshape_nat) (simp add: len C mult.assoc)
  have p: "K_permute_dimensions \<lparr>shape = [B, H, W, nh, C div nh], elems = elems t\<rparr> [0, 3, 1, 2, 4]
      = Inr (tabulate [B, nh, H, W, C div nh]
            (\<lambda>idx. entry \<lparr>shape = [B, H, W, nh, C div nh], elems = elems t\<rparr>
                      (unpermute [0, 3, 1, 2, 4] idx)))"
    by (rule K_permute_ok) simp_all
  show ?thesis
    unfolding split_heads_2d_def
    by (simp add: shp K_shape_def sh Let_def nh(1) fd r p del: One_nat_def)
qed

lemma entry_split:
  assumes "b < B" "h < nh" "y < H" "x < W" "d < c"
  shows "entry (tabulate [B, nh, H, W, c]
            (\<lambda>idx. entry \<lparr>shape = [B, H, W, nh, c], elems = elems t\<rparr>
                      (unpermute [0, 3, 1, 2, 4] idx))) [b, h, y, x, d]
         = elems t ! ravel [B, H, W, nh * c] [b, y, x, h * c + d]"
proof -
  have "entry (tabulate [B, nh, H, W, c]
            (\<lambda>idx. entry \<lparr>shape = [B, H, W, nh, c], elems = elems t\<rparr>
                      (unpermute [0, 3, 1, 2, 4] idx))) [b, h, y, x, d]
        = entry \<lparr>shape = [B, H, W, nh, c], elems = elems t\<rparr> [b, y, x, h, d]"
    using assms by (simp add: entry_tabulate unpermute_03124 del: One_nat_def)
  also have "\<dots> = elems t ! ravel [B, H, W, nh, c] [b, y, x, h, d]"
    by (simp add: entry_def)
  finally show ?thesis unfolding ravel_merge45 .
qed

lemma combine_heads_2d_ok:
  assumes sh: "shape s = [B, nh, H, W, c]" and wf: "wf_tensor s"
  shows "combine_heads_2d s =
     Inr \<lparr>shape = [B, H, W, nh * c],
          elems = elems (tabulate [B, H, W, nh, c] (\<lambda>idx. entry s (unpermute [0, 2, 3, 1, 4] idx)))\<rparr>"
proof -
  let ?tr = "tabulate [B, H, W, nh, c] (\<lambda>idx. entry s (unpermute [0, 2, 3, 1, 4] idx))"
  have p: "K_permute_dimensions s [0, 2, 3, 1, 4] = Inr ?tr"
    by (rule K_permute_ok) (simp_all add: sh)
  have e: "[int B, int H, int W, int nh * int c] = map int [B, H, W, nh * c]" by simp
  have r: "K_reshape ?tr [int B, int H, int W, int nh * int c]
            = Inr \<lparr>shape = [B, H, W, nh * c], elems = elems ?tr\<rparr>"
    unfolding e by (rule K_reshape_nat) (simp add: mult.assoc)
  show ?thesis
    unfolding combine_heads_2d_def by (simp add: p K_shape_def Let_def r del: One_nat_def)
qed

text \<open>
  Claim C2. On a tensor of shape \<open>(B, H, W, C)\<close> with \<open>C\<close> divisible by the number
  of heads, \<open>split_heads_2d\<close> gives a tensor of shape \<open>(B, heads, H, W, C / heads)\<close>
  in which head \<open>h\<close> holds the channels \<open>h * (C / heads) + d\<close> for \<open>d < C / heads\<close>,
  in order, and \<open>combine_heads_2d\<close> applied to it returns the original tensor.
\<close>

theorem split_combine_round_trip:
  assumes shp: "u_shape self = Some shp" "length shp = 4"
    and sh: "shape t = [B, H, W, C]" and wf: "wf_tensor t"
    and nh: "num_heads self = int nh" "0 < nh" "nh dvd C"
  shows "\<exists>s. split_heads_2d self t =
            (Inr s, self\<lparr>u_batch := Some (int B), u_height := Some (int H), u_width := Some (int W)\<rparr>)
      \<and> shape s = [B, nh, H, W, C div nh]
      \<and> (\<forall>b<B. \<forall>h<nh. \<forall>y<H. \<forall>x<W. \<forall>d<C div nh.
            entry s [b, h, y, x, d] = entry t [b, y, x, h * (C div nh) + d])
      \<and> combine_heads_2d s = Inr t"
proof -
  define c where "c = C div nh"
  have C: "nh * c = C" using nh(3) by (simp add: c_def)
  define s where "s = tabulate [B, nh, H, W, c]
            (\<lambda>idx. entry \<lparr>shape = [B, H, W, nh, c], elems = elems t\<rparr> (unpermute [0, 3, 1, 2, 4] idx))"
  have split: "split_heads_2d self t =
      (Inr s, self\<lparr>u_batch := Some (int B), u_height := Some (int H), u_width := Some (int W)\<rparr>)"
    using split_heads_2d_ok [OF shp sh wf nh] by (simp add: s_def c_def)
  have ent: "entry s [b, h, y, x, d] = entry t [b, y, x, h * c + d]"
    if "b < B" "h < nh" "y < H" "x < W" "d < c" for b h y x d
    using entry_split [OF that, of t] by (simp add: s_def entry_def sh C del: ravel.simps)
  have ss: "shape s = [B, nh, H, W, c]" "wf_tensor s" by (simp_all add: s_def)
  let ?tr = "tabulate [B, H, W, nh, c] (\<lambda>idx. entry s (unpermute [0, 2, 3, 1, 4] idx))"
  let ?r = "\<lparr>shape = [B, H, W, nh * c], elems = elems ?tr\<rparr>"
  have comb: "combine_heads_2d s = Inr ?r" by (rule combine_heads_2d_ok [OF ss])
  have "?r = t"
  proof (rule tensor_eqI)
    show "wf_tensor ?r" by (simp add: wf_tensor_def mult.assoc)
    show "wf_tensor t" by (rule wf)
    show "shape ?r = shape t" by (simp add: sh C)
    fix idx assume "valid_index (shape ?r) idx"
    then obtain b y x ch where idx: "idx = [b, y, x, ch]" and lt: "b < B" "y < H" "x < W" "ch < nh * c"
      by (auto elim: valid_index4E)
    have cpos: "0 < c" using lt(4) by (cases c) simp_all
    have hd: "ch div c < nh" "ch mod c < c"
      using lt(4) cpos by (simp_all add: less_mult_imp_div_less mult.commute)
    have "entry ?r [b, y, x, ch] = entry ?tr [b, y, x, ch div c, ch mod c]"
      by (rule entry_reshaped) (use lt hd in \<open>simp_all add: ravel_merge45 del: ravel.simps\<close>)
    also have "\<dots> = entry s [b, ch div c, y, x, ch mod c]"
      using lt hd by (simp add: entry_tabulate unpermute_02314 del: One_nat_def)
    also have "\<dots> = entry t [b, y, x, ch div c * c + ch mod c]"
      using lt hd by (rule_tac ent)
    finally show "entry ?r idx = entry t idx" by (simp add: idx)
  qed
  then show ?thesis using split ent ss(1) comb unfolding c_def by auto
qed


theorem split_combine_round_trip_witness:
  "\<exists>s. split_heads_2d
          \<lparr>strides = (1, 1), depth_k = 2, depth_v = 2, num_heads = 2, relative = False, axis = - 1,
           u_shape = Some [1, 1, 1, 4], key_relative_w = None, key_relative_h = None,
           u_batch = None, u_height = None, u_width = None\<rparr>
          \<lparr>shape = [1, 1, 1, 4], elems = [5, 6, 7, 8 :: int]\<rparr>
        = (Inr s,
           \<lparr>strides = (1, 1), depth_k = 2, depth_v = 2, num_heads = 2, relative = False, axis = - 1,
            u_shape = Some [1, 1, 1, 4], key_relative_w = None, key_relative_h = None,
            u_batch = Some 1, u_height = Some 1, u_width = Some 1\<rparr>)
      \<and> shape s = [1, 2, 1, 1, 2]
      \<and> entry s [0, 1, 0, 0, 0] = 7
      \<and> combine_heads_2d s = Inr \<lparr>shape = [1, 1, 1, 4], elems = [5, 6, 7, 8 :: int]\<rparr>"
proof -
  let ?self = "\<lparr>strides = (1, 1), depth_k = 2, depth_v = 2, num_heads = 2, relative = False, axis = - 1,
           u_shape = Some [1, 1, 1, 4], key_relative_w = None, key_relative_h = None,
           u_batch = None, u_height = None, u_width = None\<rparr>"
  let ?t = "\<lparr>shape = [1, 1, 1, 4], elems = [5, 6, 7, 8 :: int]\<rparr>"
  obtain s where s: "split_heads_2d ?self ?t =
            (Inr s, ?self\<lparr>u_batch := Some (int 1), u_height := Some (int 1), u_width := Some (int 1)\<rparr>)"
      "shape s = [1, 2, 1, 1, 4 div 2]" "combine_heads_2d s = Inr ?t"
    and ent: "\<forall>b<1. \<forall>h<2. \<forall>y<1. \<forall>x<1. \<forall>d<4 div 2.
            entry s [b, h, y, x, d] = entry ?t [b, y, x, h * (4 div 2) + d]"
    using split_combine_round_trip [of ?self "[1, 1, 1, 4]" ?t 1 1 1 4 2]
    by (auto simp: wf_tensor_def)
  have "entry s [0, 1, 0, 0, 0] = 7"
    using ent [rule_format, of 0 1 0 0 0] by (simp add: entry_def)
  then show ?thesis using s by simp
qed

section \<open>The forward pass up to the flattened query, key and value\<close>

lemma bindS_Inr [simp]: "bindS (Inr a, self) f = f a self" by (simp add: bindS_def)
lemma bindS_Inl [simp]: "bindS (Inl e, self) f = (Inl e, self)" by (simp add: bindS_def)

lemma resolve_sizes3:
  "resolve_sizes [int k, int k, int v] (k + k + v) = Inr [k, k, v]"
  by (simp add: resolve_sizes_def)

lemma tf_split3_spec:
  assumes sh: "shape t = [B, H, W, k + k + v]"
  obtains q0 k0 v0 where "tf_split t [int k, int k, int v] = Inr [q0, k0, v0]"
    and "shape q0 = [B, H, W, k]" "wf_tensor q0"
    and "shape k0 = [B, H, W, k]" "wf_tensor k0"
    and "shape v0 = [B, H, W, v]" "wf_tensor v0"
    and "\<And>b y x c. b < B \<Longrightarrow> y < H \<Longrightarrow> x < W \<Longrightarrow> c < k \<Longrightarrow>
           entry q0 [b, y, x, c] = entry t [b, y, x, c]"
    and "\<And>b y x c. b < B \<Longrightarrow> y < H \<Longrightarrow> x < W \<Longrightarrow> c < k \<Longrightarrow>
           entry k0 [b, y, x, c] = entry t [b, y, x, k + c]"
    and "\<And>b y x c. b < B \<Longrightarrow> y < H \<Longrightarrow> x < W \<Longrightarrow> c < v \<Longrightarrow>
           entry v0 [b, y, x, c] = entry t [b, y, x, k + k + c]"
proof -
  have u: "[0..<3] = [0, 1, 2]" by (simp add: upt_rec)
  have eq: "tf_split t [int k, int k, int v] =
      Inr [tabulate [B, H, W, k] (\<lambda>idx. entry t (butlast idx @ [last idx])),
           tabulate [B, H, W, k] (\<lambda>idx. entry t (butlast idx @ [last idx + k])),
           tabulate [B, H, W, v] (\<lambda>idx. entry t (butlast idx @ [last idx + (k + k)]))]"
    unfolding tf_split_def sh by (simp add: resolve_sizes3 u)
  show ?thesis
    by (rule that [OF eq]) (simp_all add: entry_tabulate add.commute)
qed

lemma split_heads_2d_spec:
  assumes shp: "u_shape self = Some shp" "length shp = 4"
    and sh: "shape t = [B, H, W, C]" and wf: "wf_tensor t"
    and nh: "num_heads self = int nh" "0 < nh" "nh dvd C"
  obtains s where "split_heads_2d self t =
            (Inr s, self\<lparr>u_batch := Some (int B), u_height := Some (int H), u_width := Some (int W)\<rparr>)"
    and "shape s = [B, nh, H, W, C div nh]" "wf_tensor s"
    and "\<And>b h y x d. b < B \<Longrightarrow> h < nh \<Longrightarrow> y < H \<Longrightarrow> x < W \<Longrightarrow> d < C div nh \<Longrightarrow>
            entry s [b, h, y, x, d] = entry t [b, y, x, h * (C div nh) + d]"
proof -
  have C: "nh * (C div nh) = C" using nh(3) by simp
  let ?s = "tabulate [B, nh, H, W, C div nh]
            (\<lambda>idx. entry \<lparr>shape = [B, H, W, nh, C div nh], elems = elems t\<rparr>
                      (unpermute [0, 3, 1, 2, 4] idx))"
  have e: "entry ?s [b, h, y, x, d] = entry t [b, y, x, h * (C div nh) + d]"
    if "b < B" "h < nh" "y < H" "x < W" "d < C div nh" for b h y x d
    using entry_split [OF that, of t] by (simp add: entry_def sh C del: ravel.simps)
  show ?thesis
    by (rule that [OF split_heads_2d_ok [OF shp sh wf nh]]) (simp_all add: e del: One_nat_def)
qed

lemma shape_tensor_scale [simp]: "shape (tensor_scale t s) = shape t"
  by (simp add: tensor_scale_def)

lemma wf_tensor_scale [simp]: "wf_tensor (tensor_scale t s) = wf_tensor t"
  by (simp add: tensor_scale_def wf_tensor_def)

lemma entry_tensor_scale:
  "wf_tensor t \<Longrightarrow> valid_index (shape t) idx \<Longrightarrow> entry (tensor_scale t s) idx = entry t idx * s"
  using ravel_less [of "shape t" idx] by (simp add: tensor_scale_def entry_def wf_tensor_def)

lemma ravel_merge23_5:
  "ravel [A, B, C, D, E] [a, b, c, d, e] = ravel [A, B, C * D, E] [a, b, c * D + d, e]"
  by (simp add: algebra_simps)

lemma div_mod_lt:
  fixes p :: nat
  assumes "p < H * W"
  shows "p div W < H" "p mod W < W" "p div W * W + p mod W = p"
proof -
  have "0 < W" using assms by (cases W) simp_all
  then show "p mod W < W" by simp
  show "p div W < H" using assms by (simp add: less_mult_imp_div_less)
  show "p div W * W + p mod W = p" by simp
qed

lemma flatten_spec:
  assumes sh: "shape q = [B, n, H, W, d]" and wf: "wf_tensor q"
  obtains f where "K_reshape q [int B, int n, int H * int W, int d] = Inr f"
    and "shape f = [B, n, H * W, d]" "wf_tensor f"
    and "\<And>b h p c. b < B \<Longrightarrow> h < n \<Longrightarrow> p < H * W \<Longrightarrow> c < d \<Longrightarrow>
           entry f [b, h, p, c] = entry q [b, h, p div W, p mod W, c]"
proof -
  let ?f = "\<lparr>shape = [B, n, H * W, d], elems = elems q\<rparr>"
  have len: "length (elems q) = B * n * H * W * d" using wf sh by (simp add: wf_tensor_def)
  have e: "[int B, int n, int H * int W, int d] = map int [B, n, H * W, d]" by simp
  have r: "K_reshape q [int B, int n, int H * int W, int d] = Inr ?f"
    unfolding e by (rule K_reshape_nat) (simp add: len mult.assoc)
  have ent: "entry ?f [b, h, p, c] = entry q [b, h, p div W, p mod W, c]"
    if "b < B" "h < n" "p < H * W" "c < d" for b h p c
  proof (rule entry_reshaped)
    note dm = div_mod_lt [OF that(3)]
    show "valid_index (shape q) [b, h, p div W, p mod W, c]"
      using that dm by (simp add: sh)
    show "ravel [B, n, H * W, d] [b, h, p, c] = ravel (shape q) [b, h, p div W, p mod W, c]"
      unfolding sh ravel_merge23_5 dm(3) ..
  qed
  show ?thesis
    by (rule that [OF r]) (simp_all add: wf_tensor_def len mult.assoc ent)
qed

lemma tf_matmul_tb_spec:
  fixes a b :: "('a::semiring_0) tensor"
  assumes "shape a = [B, n, P, d]" "shape b = [B, n, Q, d]"
  obtains r where "tf_matmul a b True = Inr r" and "shape r = [B, n, P, Q]" "wf_tensor r"
    and "\<And>i h p q. i < B \<Longrightarrow> h < n \<Longrightarrow> p < P \<Longrightarrow> q < Q \<Longrightarrow>
          entry r [i, h, p, q] = (\<Sum>c\<leftarrow>[0..<d]. entry a [i, h, p, c] * entry b [i, h, q, c])"
proof -
  have t2: "take 2 [B, n, X, Y] = [B, n]" for X Y :: nat by (simp add: numeral_2_eq_2)
  have "\<exists>r. tf_matmul a b True = Inr r \<and> shape r = [B, n, P, Q] \<and> wf_tensor r
     \<and> (\<forall>i<B. \<forall>h<n. \<forall>p<P. \<forall>q<Q.
          entry r [i, h, p, q] = (\<Sum>c\<leftarrow>[0..<d]. entry a [i, h, p, c] * entry b [i, h, q, c]))"
    unfolding tf_matmul_def Let_def
    by (auto simp: assms t2 entry_tabulate broadcast_index_def numeral_2_eq_2 numeral_3_eq_3)
  then obtain r where "tf_matmul a b True = Inr r" "shape r = [B, n, P, Q]" "wf_tensor r"
     "\<forall>i<B. \<forall>h<n. \<forall>p<P. \<forall>q<Q.
          entry r [i, h, p, q] = (\<Sum>c\<leftarrow>[0..<d]. entry a [i, h, p, c] * entry b [i, h, q, c])"
    by (elim exE conjE)
  then show ?thesis by (intro that [of r]) simp_all
qed

lemma tf_matmul_spec:
  fixes a b :: "('a::semiring_0) tensor"
  assumes "shape a = [B, n, P, Q]" "shape b = [B, n, Q, d]"
  obtains r where "tf_matmul a b False = Inr r" and "shape r = [B, n, P, d]" "wf_tensor r"
    and "\<And>i h p c. i < B \<Longrightarrow> h < n \<Longrightarrow> p < P \<Longrightarrow> c < d \<Longrightarrow>
          entry r [i, h, p, c] = (\<Sum>j\<leftarrow>[0..<Q]. entry a [i, h, p, j] * entry b [i, h, j, c])"
proof -
  have t2: "take 2 [B, n, X, Y] = [B, n]" for X Y :: nat by (simp add: numeral_2_eq_2)
  have "\<exists>r. tf_matmul a b False = Inr r \<and> shape r = [B, n, P, d] \<and> wf_tensor r
     \<and> (\<forall>i<B. \<forall>h<n. \<forall>p<P. \<forall>c<d.
          entry r [i, h, p, c] = (\<Sum>j\<leftarrow>[0..<Q]. entry a [i, h, p, j] * entry b [i, h, j, c]))"
    unfolding tf_matmul_def Let_def
    by (auto simp: assms t2 entry_tabulate broadcast_index_def numeral_2_eq_2 numeral_3_eq_3)
  then obtain r where "tf_matmul a b False = Inr r" "shape r = [B, n, P, d]" "wf_tensor r"
     "\<forall>i<B. \<forall>h<n. \<forall>p<P. \<forall>c<d.
          entry r [i, h, p, c] = (\<Sum>j\<leftarrow>[0..<Q]. entry a [i, h, p, j] * entry b [i, h, j, c])"
    by (elim exE conjE)
  then show ?thesis by (intro that [of r]) simp_all
qed

lemma head_channel_less:
  fixes n k h c :: nat
  assumes "n dvd k" "h < n" "c < k div n"
  shows "h * (k div n) + c < k"
proof -
  have "h * (k div n) + c < h * (k div n) + k div n" using assms(3) by simp
  also have "\<dots> = Suc h * (k div n)" by simp
  also have "\<dots> \<le> n * (k div n)" using assms(2) by (intro mult_le_mono1) simp
  also have "\<dots> = k" using assms(1) by simp
  finally show ?thesis .
qed

lemma flat_shape_ok:
  assumes "u_batch self = Some b" "u_height self = Some h" "u_width self = Some w"
    and "num_heads self = int n" "0 < n"
  shows "flat_shape self (int d) = Inr [b, int n, h * w, int (d div n)]"
  using assms by (simp add: flat_shape_def attr_def py_floordiv_def zdiv_int)

lemma call_qkv_spec:
  assumes cfg: "depth_k self = int k" "depth_v self = int v" "num_heads self = int n"
    and pos: "0 < n" "0 < k"
    and dv: "n dvd k" "n dvd v"
    and shp: "u_shape self = Some shp" "length shp = 4"
    and canon: "(if axis self = 1 then K_permute_dimensions inputs [0, 2, 3, 1] else Inr inputs) = Inr t"
    and sh: "shape t = [B, H, W, k + k + v]" and wf: "wf_tensor t"
  obtains q fq fk fv where
      "call_qkv self inputs =
        (Inr (q, fq, fk, fv),
         self\<lparr>u_batch := Some (int B), u_height := Some (int H), u_width := Some (int W)\<rparr>)"
    and "shape q = [B, n, H, W, k div n]" "wf_tensor q"
    and "shape fq = [B, n, H * W, k div n]" "wf_tensor fq"
    and "shape fk = [B, n, H * W, k div n]" "wf_tensor fk"
    and "shape fv = [B, n, H * W, v div n]" "wf_tensor fv"
    and "\<And>b h y x c. b < B \<Longrightarrow> h < n \<Longrightarrow> y < H \<Longrightarrow> x < W \<Longrightarrow> c < k div n \<Longrightarrow>
          entry q [b, h, y, x, c]
            = entry t [b, y, x, h * (k div n) + c] * (real k / real n) powr (- 1 / 2)"
    and "\<And>b h p c. b < B \<Longrightarrow> h < n \<Longrightarrow> p < H * W \<Longrightarrow> c < k div n \<Longrightarrow>
          entry fq [b, h, p, c]
            = entry t [b, p div W, p mod W, h * (k div n) + c] * (real k / real n) powr (- 1 / 2)"
    and "\<And>b h p c. b < B \<Longrightarrow> h < n \<Longrightarrow> p < H * W \<Longrightarrow> c < k div n \<Longrightarrow>
          entry fk [b, h, p, c] = entry t [b, p div W, p mod W, k + (h * (k div n) + c)]"
    and "\<And>b h p c. b < B \<Longrightarrow> h < n \<Longrightarrow> p < H * W \<Longrightarrow> c < v div n \<Longrightarrow>
          entry fv [b, h, p, c] = entry t [b, p div W, p mod W, k + k + (h * (v div n) + c)]"
proof -
  define self1 where
    "self1 = self\<lparr>u_batch := Some (int B), u_height := Some (int H), u_width := Some (int W)\<rparr>"
  define s where "s = (real k / real n) powr (- 1 / 2)"
  have self1: "u_shape self1 = Some shp" "num_heads self1 = int n" "depth_k self1 = int k"
    "depth_v self1 = int v" "u_batch self1 = Some (int B)" "u_height self1 = Some (int H)"
    "u_width self1 = Some (int W)"
    "self1\<lparr>u_batch := Some (int B), u_height := Some (int H), u_width := Some (int W)\<rparr> = self1"
    by (simp_all add: self1_def shp cfg)
  obtain q0 k0 v0 where sp: "tf_split t [int k, int k, int v] = Inr [q0, k0, v0]"
    and q0: "shape q0 = [B, H, W, k]" "wf_tensor q0"
    and k0: "shape k0 = [B, H, W, k]" "wf_tensor k0"
    and v0: "shape v0 = [B, H, W, v]" "wf_tensor v0"
    and eq0: "\<And>b y x c. b < B \<Longrightarrow> y < H \<Longrightarrow> x < W \<Longrightarrow> c < k \<Longrightarrow> entry q0 [b, y, x, c] = entry t [b, y, x, c]"
    and ek0: "\<And>b y x c. b < B \<Longrightarrow> y < H \<Longrightarrow> x < W \<Longrightarrow> c < k \<Longrightarrow> entry k0 [b, y, x, c] = entry t [b, y, x, k + c]"
    and ev0: "\<And>b y x c. b < B \<Longrightarrow> y < H \<Longrightarrow> x < W \<Longrightarrow> c < v \<Longrightarrow> entry v0 [b, y, x, c] = entry t [b, y, x, k + k + c]"
    by (rule tf_split3_spec [OF sh]) blast
  obtain q1 where s1: "split_heads_2d self q0 = (Inr q1, self1)"
    and q1: "shape q1 = [B, n, H, W, k div n]" "wf_tensor q1"
    and eq1: "\<And>b h y x c. b < B \<Longrightarrow> h < n \<Longrightarrow> y < H \<Longrightarrow> x < W \<Longrightarrow> c < k div n \<Longrightarrow>
               entry q1 [b, h, y, x, c] = entry q0 [b, y, x, h * (k div n) + c]"
    unfolding self1_def by (rule split_heads_2d_spec [OF shp q0 cfg(3) pos(1) dv(1)]) blast
  obtain k1 where s2: "split_heads_2d self1 k0 = (Inr k1, self1)"
    and k1: "shape k1 = [B, n, H, W, k div n]" "wf_tensor k1"
    and ek1: "\<And>b h y x c. b < B \<Longrightarrow> h < n \<Longrightarrow> y < H \<Longrightarrow> x < W \<Longrightarrow> c < k div n \<Longrightarrow>
               entry k1 [b, h, y, x, c] = entry k0 [b, y, x, h * (k div n) + c]"
    by (rule split_heads_2d_spec [OF self1(1) shp(2) k0 self1(2) pos(1) dv(1), unfolded self1(8)]) blast
  obtain v1 where s3: "split_heads_2d self1 v0 = (Inr v1, self1)"
    and v1: "shape v1 = [B, n, H, W, v div n]" "wf_tensor v1"
    and ev1: "\<And>b h y x c. b < B \<Longrightarrow> h < n \<Longrightarrow> y < H \<Longrightarrow> x < W \<Longrightarrow> c < v div n \<Longrightarrow>
               entry v1 [b, h, y, x, c] = entry v0 [b, y, x, h * (v div n) + c]"
    by (rule split_heads_2d_spec [OF self1(1) shp(2) v0 self1(2) pos(1) dv(2), unfolded self1(8)]) blast
  have td: "py_truediv (int k) (int n) = Inr (real k / real n)"
    using pos by (simp add: py_truediv_def)
  have "0 < real k / real n" using pos by simp
  then have "real k / real n \<noteq> 0" "\<not> real k / real n < 0" by linarith+
  then have pw: "py_pow_neg_half (real k / real n) = Inr s"
    unfolding py_pow_neg_half_def s_def by (simp only: if_False)
  define q where "q = tensor_scale q1 s"
  have q: "shape q = [B, n, H, W, k div n]" "wf_tensor q" by (simp_all add: q_def q1)
  have eq: "entry q [b, h, y, x, c] = entry t [b, y, x, h * (k div n) + c] * s"
    if "b < B" "h < n" "y < H" "x < W" "c < k div n" for b h y x c
  proof -
    have "entry q [b, h, y, x, c] = entry q1 [b, h, y, x, c] * s"
      unfolding q_def using that by (intro entry_tensor_scale [OF q1(2)]) (simp add: q1)
    then show ?thesis
      using eq1 [OF that] eq0 [OF that(1,3,4) head_channel_less [OF dv(1) that(2,5)]] by simp
  qed
  have fsk: "flat_shape self1 (int k) = Inr [int B, int n, int H * int W, int (k div n)]"
    by (rule flat_shape_ok [OF self1(5-7) self1(2) pos(1)])
  have fsv: "flat_shape self1 (int v) = Inr [int B, int n, int H * int W, int (v div n)]"
    by (rule flat_shape_ok [OF self1(5-7) self1(2) pos(1)])
  obtain fq where rq: "K_reshape q [int B, int n, int H * int W, int (k div n)] = Inr fq"
    and fq: "shape fq = [B, n, H * W, k div n]" "wf_tensor fq"
    and efq: "\<And>b h p c. b < B \<Longrightarrow> h < n \<Longrightarrow> p < H * W \<Longrightarrow> c < k div n \<Longrightarrow>
               entry fq [b, h, p, c] = entry q [b, h, p div W, p mod W, c]"
    by (rule flatten_spec [OF q]) blast
  obtain fk where rk: "K_reshape k1 [int B, int n, int H * int W, int (k div n)] = Inr fk"
    and fk: "shape fk = [B, n, H * W, k div n]" "wf_tensor fk"
    and efk: "\<And>b h p c. b < B \<Longrightarrow> h < n \<Longrightarrow> p < H * W \<Longrightarrow> c < k div n \<Longrightarrow>
               entry fk [b, h, p, c] = entry k1 [b, h, p div W, p mod W, c]"
    by (rule flatten_spec [OF k1]) blast
  obtain fv where rv: "K_reshape v1 [int B, int n, int H * int W, int (v div n)] = Inr fv"
    and fv: "shape fv = [B, n, H * W, v div n]" "wf_tensor fv"
    and efv: "\<And>b h p c. b < B \<Longrightarrow> h < n \<Longrightarrow> p < H * W \<Longrightarrow> c < v div n \<Longrightarrow>
               entry fv [b, h, p, c] = entry v1 [b, h, p div W, p mod W, c]"
    by (rule flatten_spec [OF v1]) blast
  have res: "call_qkv self inputs = (Inr (q, fq, fk, fv), self1)"
    unfolding call_qkv_def
    by (simp add: canon cfg sp s1 s2 s3 self1 td pw q_def [symmetric] fsk fsv rq rk rv)
  have e1: "entry fq [b, h, p, c] = entry t [b, p div W, p mod W, h * (k div n) + c] * s"
    if "b < B" "h < n" "p < H * W" "c < k div n" for b h p c
    using efq [OF that] eq [OF that(1,2) div_mod_lt(1,2) [OF that(3)] that(4)] by simp
  have e2: "entry fk [b, h, p, c] = entry t [b, p div W, p mod W, k + (h * (k div n) + c)]"
    if "b < B" "h < n" "p < H * W" "c < k div n" for b h p c
    using efk [OF that] ek1 [OF that(1,2) div_mod_lt(1,2) [OF that(3)] that(4)]
      ek0 [OF that(1) div_mod_lt(1,2) [OF that(3)] head_channel_less [OF dv(1) that(2,4)]]
    by simp
  have e3: "entry fv [b, h, p, c] = entry t [b, p div W, p mod W, k + k + (h * (v div n) + c)]"
    if "b < B" "h < n" "p < H * W" "c < v div n" for b h p c
    using efv [OF that] ev1 [OF that(1,2) div_mod_lt(1,2) [OF that(3)] that(4)]
      ev0 [OF that(1) div_mod_lt(1,2) [OF that(3)] head_channel_less [OF dv(2) that(2,4)]]
    by simp
  show ?thesis
    by (rule that [OF res [unfolded self1_def] q fq fk fv])
       (simp_all add: eq e1 e2 e3 s_def)
qed

section \<open>The content logits\<close>

lemma call_content_spec:
  assumes cfg: "depth_k self = int k" "depth_v self = int v" "num_heads self = int n"
    and pos: "0 < n" "0 < k"
    and dv: "n dvd k" "n dvd v"
    and shp: "u_shape self = Some shp" "length shp = 4"
    and canon: "(if axis self = 1 then K_permute_dimensions inputs [0, 2, 3, 1] else Inr inputs) = Inr t"
    and sh: "shape t = [B, H, W, k + k + v]" and wf: "wf_tensor t"
  obtains q logits fv where
      "call_content self inputs =
        (Inr (q, logits, fv),
         self\<lparr>u_batch := Some (int B), u_height := Some (int H), u_width := Some (int W)\<rparr>)"
    and "shape q = [B, n, H, W, k div n]" "wf_tensor q"
    and "shape logits = [B, n, H * W, H * W]" "wf_tensor logits"
    and "shape fv = [B, n, H * W, v div n]" "wf_tensor fv"
    and "\<And>b h y x c. b < B \<Longrightarrow> h < n \<Longrightarrow> y < H \<Longrightarrow> x < W \<Longrightarrow> c < k div n \<Longrightarrow>
          entry q [b, h, y, x, c]
            = entry t [b, y, x, h * (k div n) + c] * (real k / real n) powr (- 1 / 2)"
    and "\<And>b h p p'. b < B \<Longrightarrow> h < n \<Longrightarrow> p < H * W \<Longrightarrow> p' < H * W \<Longrightarrow>
          entry logits [b, h, p, p']
            = (\<Sum>c\<leftarrow>[0..<k div n].
                 (entry t [b, p div W, p mod W, h * (k div n) + c] * (real k / real n) powr (- 1 / 2))
                 * entry t [b, p' div W, p' mod W, k + (h * (k div n) + c)])"
proof -
  obtain q fq fk fv where
      c: "call_qkv self inputs =
        (Inr (q, fq, fk, fv),
         self\<lparr>u_batch := Some (int B), u_height := Some (int H), u_width := Some (int W)\<rparr>)"
    and q: "shape q = [B, n, H, W, k div n]" "wf_tensor q"
    and fq: "shape fq = [B, n, H * W, k div n]" "wf_tensor fq"
    and fk: "shape fk = [B, n, H * W, k div n]" "wf_tensor fk"
    and fv: "shape fv = [B, n, H * W, v div n]" "wf_tensor fv"
    and eq: "\<And>b h y x c. b < B \<Longrightarrow> h < n \<Longrightarrow> y < H \<Longrightarrow> x < W \<Longrightarrow> c < k div n \<Longrightarrow>
          entry q [b, h, y, x, c]
            = entry t [b, y, x, h * (k div n) + c] * (real k / real n) powr (- 1 / 2)"
    and efq: "\<And>b h p c. b < B \<Longrightarrow> h < n \<Longrightarrow> p < H * W \<Longrightarrow> c < k div n \<Longrightarrow>
          entry fq [b, h, p, c]
            = entry t [b, p div W, p mod W, h * (k div n) + c] * (real k / real n) powr (- 1 / 2)"
    and efk: "\<And>b h p c. b < B \<Longrightarrow> h < n \<Longrightarrow> p < H * W \<Longrightarrow> c < k div n \<Longrightarrow>
          entry fk [b, h, p, c] = entry t [b, p div W, p mod W, k + (h * (k div n) + c)]"
    by (rule call_qkv_spec [OF cfg pos dv shp canon sh wf]) blast
  obtain logits where m: "tf_matmul fq fk True = Inr logits"
    and l: "shape logits = [B, n, H * W, H * W]" "wf_tensor logits"
    and el: "\<And>i h p q. i < B \<Longrightarrow> h < n \<Longrightarrow> p < H * W \<Longrightarrow> q < H * W \<Longrightarrow>
          entry logits [i, h, p, q] = (\<Sum>c\<leftarrow>[0..<k div n]. entry fq [i, h, p, c] * entry fk [i, h, q, c])"
    by (rule tf_matmul_tb_spec [OF fq(1) fk(1)]) blast
  have res: "call_content self inputs =
        (Inr (q, logits, fv),
         self\<lparr>u_batch := Some (int B), u_height := Some (int H), u_width := Some (int W)\<rparr>)"
    unfolding call_content_def by (simp add: c m)
  have e: "entry logits [b, h, p, p']
            = (\<Sum>c\<leftarrow>[0..<k div n].
                 (entry t [b, p div W, p mod W, h * (k div n) + c] * (real k / real n) powr (- 1 / 2))
                 * entry t [b, p' div W, p' mod W, k + (h * (k div n) + c)])"
    if "b < B" "h < n" "p < H * W" "p' < H * W" for b h p p'
  proof -
    have meq: "map (\<lambda>c. entry fq [b, h, p, c] * entry fk [b, h, p', c]) [0..<k div n]
        = map (\<lambda>c. (entry t [b, p div W, p mod W, h * (k div n) + c] * (real k / real n) powr (- 1 / 2))
                 * entry t [b, p' div W, p' mod W, k + (h * (k div n) + c)]) [0..<k div n]"
      by (rule map_cong [OF refl]) (simp add: efq [OF that(1,2,3)] efk [OF that(1,2,4)])
    show ?thesis unfolding el [OF that] by (rule arg_cong [of _ _ sum_list]) (rule meq)
  qed
  show ?thesis by (rule that [OF res q l fv eq e])
qed

text \<open>
  Claim C7. Real arithmetic stands for the tensors' floating-point arithmetic. On a valid
  input (after the layout is normalised, a tensor \<open>t\<close> of shape
  \<open>(B, H, W, 2 * depth_k + depth_v)\<close>), lines 59--77 of \<open>call\<close> return the query
  \<open>q\<close>, split into heads with every entry multiplied by \<open>(depth_k / num_heads) ^ -0.5\<close>,
  and the flattened tensors \<open>flat_q\<close> and \<open>flat_k\<close>. The flattened query is the
  scaled query with its two spatial axes merged, so the scale is applied before the
  flattening and is part of the left factor of the product; the flattened key carries the
  input's key channels unscaled. The content logits of line 80 are
  \<open>tf.matmul(flat_q, flat_k, transpose_b=True)\<close> of exactly these two tensors: they
  have shape \<open>(B, heads, H * W, H * W)\<close>, and their entry at positions \<open>p\<close>, \<open>p'\<close> is
  the dot product over the head's channels of the scaled flattened query at \<open>p\<close> with the
  flattened key at \<open>p'\<close>.
\<close>

theorem content_logits_scaled_product:
  assumes "depth_k self = int k" "depth_v self = int v" "num_heads self = int n"
    and "0 < n" "0 < k" "n dvd k" "n dvd v"
    and "u_shape self = Some shp" "length shp = 4"
    and "(if axis self = 1 then K_permute_dimensions inputs [0, 2, 3, 1] else Inr inputs) = Inr t"
    and "shape t = [B, H, W, k + k + v]" and "wf_tensor t"
  shows "\<exists>q flat_q flat_k flat_v logits.
      call_qkv self inputs =
        (Inr (q, flat_q, flat_k, flat_v),
         self\<lparr>u_batch := Some (int B), u_height := Some (int H), u_width := Some (int W)\<rparr>)
    \<and> tf_matmul flat_q flat_k True = Inr logits
    \<and> call_content self inputs =
        (Inr (q, logits, flat_v),
         self\<lparr>u_batch := Some (int B), u_height := Some (int H), u_width := Some (int W)\<rparr>)
    \<and> shape q = [B, n, H, W, k div n]
    \<and> shape flat_q = [B, n, H * W, k div n]
    \<and> shape flat_k = [B, n, H * W, k div n]
    \<and> shape logits = [B, n, H * W, H * W]
    \<and> (\<forall>b<B. \<forall>h<n. \<forall>y<H. \<forall>x<W. \<forall>c<k div n.
          entry q [b, h, y, x, c]
            = entry t [b, y, x, h * (k div n) + c] * (real k / real n) powr (- 1 / 2))
    \<and> (\<forall>b<B. \<forall>h<n. \<forall>p<H * W. \<forall>c<k div n.
          entry flat_q [b, h, p, c] = entry q [b, h, p div W, p mod W, c])
    \<and> (\<forall>b<B. \<forall>h<n. \<forall>p<H * W. \<forall>c<k div n.
          entry flat_q [b, h, p, c]
            = entry t [b, p div W, p mod W, h * (k div n) + c] * (real k / real n) powr (- 1 / 2))
    \<and> (\<forall>b<B. \<forall>h<n. \<forall>p<H * W. \<forall>c<k div n.
          entry flat_k [b, h, p, c] = entry t [b, p div W, p mod W, k + (h * (k div n) + c)])
    \<and> (\<forall>b<B. \<forall>h<n. \<forall>p<H * W. \<forall>p'<H * W.
          entry logits [b, h, p, p']
            = (\<Sum>c\<leftarrow>[0..<k div n]. entry flat_q [b, h, p, c] * entry flat_k [b, h, p', c]))"
proof -
  obtain q fq fk fv where
      c: "call_qkv self inputs =
        (Inr (q, fq, fk, fv),
         self\<lparr>u_batch := Some (int B), u_height := Some (int H), u_width := Some (int W)\<rparr>)"
    and q: "shape q = [B, n, H, W, k div n]"
    and fq: "shape fq = [B, n, H * W, k div n]"
    and fk: "shape fk = [B, n, H * W, k div n]"
    and eq: "\<And>b h y x c. b < B \<Longrightarrow> h < n \<Longrightarrow> y < H \<Longrightarrow> x < W \<Longrightarrow> c < k div n \<Longrightarrow>
          entry q [b, h, y, x, c]
            = entry t [b, y, x, h * (k div n) + c] * (real k / real n) powr (- 1 / 2)"
    and efq: "\<And>b h p c. b < B \<Longrightarrow> h < n \<Longrightarrow> p < H * W \<Longrightarrow> c < k div n \<Longrightarrow>
          entry fq [b, h, p, c]
            = entry t [b, p div W, p mod W, h * (k div n) + c] * (real k / real n) powr (- 1 / 2)"
    and efk: "\<And>b h p c. b < B \<Longrightarrow> h < n \<Longrightarrow> p < H * W \<Longrightarrow> c < k div n \<Longrightarrow>
          entry fk [b, h, p, c] = entry t [b, p div W, p mod W, k + (h * (k div n) + c)]"
    by (rule call_qkv_spec [OF assms]) blast
  obtain logits where m: "tf_matmul fq fk True = Inr logits"
    and l: "shape logits = [B, n, H * W, H * W]"
    and el: "\<And>i h p q. i < B \<Longrightarrow> h < n \<Longrightarrow> p < H * W \<Longrightarrow> q < H * W \<Longrightarrow>
          entry logits [i, h, p, q] = (\<Sum>c\<leftarrow>[0..<k div n]. entry fq [i, h, p, c] * entry fk [i, h, q, c])"
    by (rule tf_matmul_tb_spec [OF fq fk]) blast
  have res: "call_content self inputs =
        (Inr (q, logits, fv),
         self\<lparr>u_batch := Some (int B), u_height := Some (int H), u_width := Some (int W)\<rparr>)"
    unfolding call_content_def by (simp add: c m)
  have flat: "entry fq [b, h, p, c] = entry q [b, h, p div W, p mod W, c]"
    if "b < B" "h < n" "p < H * W" "c < k div n" for b h p c
  proof -
    note dm = div_mod_lt [OF that(3)]
    show ?thesis unfolding efq [OF that] eq [OF that(1,2) dm(1,2) that(4)] ..
  qed
  show ?thesis
    apply (rule exI [of _ q], rule exI [of _ fq], rule exI [of _ fk], rule exI [of _ fv],
           rule exI [of _ logits])
    apply (intro conjI allI impI)
    apply (rule c m res q fq fk l)+
    apply (erule (4) eq)
    apply (erule (3) flat)
    apply (erule (3) efq)
    apply (erule (3) efk)
    apply (erule (3) el)
    done
qed

theorem content_logits_scaled_product_witness:
  "\<exists>q flat_q flat_k flat_v logits.
      call_qkv
        \<lparr>strides = (1, 1), depth_k = 4, depth_v = 2, num_heads = 2, relative = False, axis = - 1,
         u_shape = Some [1, 1, 2, 10], key_relative_w = None, key_relative_h = None,
         u_batch = None, u_height = None, u_width = None\<rparr>
        \<lparr>shape = [1, 1, 2, 10],
         elems = [1, 2, 3, 4, 5, 6, 7, 8, 9, 10, 11, 12, 13, 14, 15, 16, 17, 18, 19, 20]\<rparr>
      = (Inr (q, flat_q, flat_k, flat_v),
         \<lparr>strides = (1, 1), depth_k = 4, depth_v = 2, num_heads = 2, relative = False, axis = - 1,
          u_shape = Some [1, 1, 2, 10], key_relative_w = None, key_relative_h = None,
          u_batch = Some 1, u_height = Some 1, u_width = Some 2\<rparr>)
    \<and> tf_matmul flat_q flat_k True = Inr logits
    \<and> shape flat_q = [1, 2, 2, 2]
    \<and> shape logits = [1, 2, 2, 2]
    \<and> entry q [0, 1, 0, 0, 0] = 3 * 2 powr (- 1 / 2)
    \<and> entry q [0, 1, 0, 0, 1] = 4 * 2 powr (- 1 / 2)
    \<and> entry flat_q [0, 1, 0, 0] = 3 * 2 powr (- 1 / 2)
    \<and> entry flat_q [0, 1, 0, 1] = 4 * 2 powr (- 1 / 2)
    \<and> entry flat_q [0, 0, 1, 1] = 12 * 2 powr (- 1 / 2)
    \<and> entry flat_k [0, 1, 1, 0] = 17
    \<and> entry flat_k [0, 1, 1, 1] = 18
    \<and> entry logits [0, 1, 0, 1] = 123 * 2 powr (- 1 / 2)"
proof -
  let ?self = "\<lparr>strides = (1, 1), depth_k = 4, depth_v = 2, num_heads = 2, relative = False, axis = - 1,
         u_shape = Some [1, 1, 2, 10], key_relative_w = None, key_relative_h = None,
         u_batch = None, u_height = None, u_width = None\<rparr>"
  let ?x = "\<lparr>shape = [1, 1, 2, 10],
         elems = [1, 2, 3, 4, 5, 6, 7, 8, 9, 10, 11, 12, 13, 14, 15, 16, 17, 18, 19, 20 :: real]\<rparr>"
  obtain q fq fk fv logits where r: "call_qkv ?self ?x =
        (Inr (q, fq, fk, fv),
         ?self\<lparr>u_batch := Some (int 1), u_height := Some (int 1), u_width := Some (int 2)\<rparr>)"
      "tf_matmul fq fk True = Inr logits"
      "shape fq = [1, 2, 1 * 2, 4 div 2]"
      "shape logits = [1, 2, 1 * 2, 1 * 2]"
    and eq: "\<forall>b<1. \<forall>h<2. \<forall>y<1. \<forall>x<2. \<forall>c<4 div 2.
          entry q [b, h, y, x, c]
            = entry ?x [b, y, x, h * (4 div 2) + c] * (real 4 / real 2) powr (- 1 / 2)"
    and efq: "\<forall>b<1. \<forall>h<2. \<forall>p<1 * 2. \<forall>c<4 div 2.
          entry fq [b, h, p, c]
            = entry ?x [b, p div 2, p mod 2, h * (4 div 2) + c] * (real 4 / real 2) powr (- 1 / 2)"
    and efk: "\<forall>b<1. \<forall>h<2. \<forall>p<1 * 2. \<forall>c<4 div 2.
          entry fk [b, h, p, c] = entry ?x [b, p div 2, p mod 2, 4 + (h * (4 div 2) + c)]"
    and el: "\<forall>b<1. \<forall>h<2. \<forall>p<1 * 2. \<forall>p'<1 * 2.
          entry logits [b, h, p, p']
            = (\<Sum>c\<leftarrow>[0..<4 div 2]. entry fq [b, h, p, c] * entry fk [b, h, p', c])"
    using content_logits_scaled_product [of ?self 4 2 2 "[1, 1, 2, 10]" ?x ?x 1 1 2]
    by (auto simp: wf_tensor_def)
  have q0: "entry q [0, 1, 0, 0, 0] = 3 * 2 powr (- 1 / 2)"
    using eq [rule_format, of 0 1 0 0 0] by (simp add: entry_def)
  have q1: "entry q [0, 1, 0, 0, 1] = 4 * 2 powr (- 1 / 2)"
    using eq [rule_format, of 0 1 0 0 1] by (simp add: entry_def)
  have f0: "entry fq [0, 1, 0, 0] = 3 * 2 powr (- 1 / 2)"
    using efq [rule_format, of 0 1 0 0] by (simp add: entry_def)
  have f1: "entry fq [0, 1, 0, 1] = 4 * 2 powr (- 1 / 2)"
    using efq [rule_format, of 0 1 0 1] by (simp add: entry_def)
  have f2: "entry fq [0, 0, 1, 1] = 12 * 2 powr (- 1 / 2)"
    using efq [rule_format, of 0 0 1 1] by (simp add: entry_def)
  have k0: "entry fk [0, 1, 1, 0] = 17"
    using efk [rule_format, of 0 1 1 0] by (simp add: entry_def)
  have k1: "entry fk [0, 1, 1, 1] = 18"
    using efk [rule_format, of 0 1 1 1] by (simp add: entry_def)
  have u: "[0..<4 div 2] = [0, 1]" by (simp add: upt_rec)
  have l: "entry logits [0, 1, 0, 1] = 123 * 2 powr (- 1 / 2)"
    using el [rule_format, of 0 1 0 1] f0 f1 k0 k1 unfolding u by simp
  show ?thesis using r q0 q1 f0 f1 f2 k0 k1 l by simp
qed

section \<open>What the forward pass reads and assigns\<close>

lemma same_parameters_refl [simp]: "same_parameters a a"
  by (simp add: same_parameters_def)

lemma same_parameters_update [simp]:
  "same_parameters a (a\<lparr>u_batch := x, u_height := y, u_width := z\<rparr>)"
  by (simp add: same_parameters_def)

lemma same_parameters_trans:
  "same_parameters a b \<Longrightarrow> same_parameters b c \<Longrightarrow> same_parameters a c"
  unfolding same_parameters_def
  by (cases a, cases b, cases c) simp

lemma same_parameters_fields:
  assumes "same_parameters a b"
  shows "relative b = relative a" "axis b = axis a" "depth_k b = depth_k a"
    "depth_v b = depth_v a" "num_heads b = num_heads a" "u_shape b = u_shape a"
    "key_relative_w b = key_relative_w a" "key_relative_h b = key_relative_h a"
  using assms unfolding same_parameters_def by (cases a, cases b, simp)+

lemma split_heads_2d_same_parameters: "same_parameters self (snd (split_heads_2d self t))"
  unfolding split_heads_2d_def by (simp add: Let_def split: option.splits)

lemma bindS_same_parameters:
  assumes "same_parameters self (snd m)"
    and "\<And>a s. same_parameters s (snd (f a s))"
  shows "same_parameters self (snd (bindS m f))"
proof (cases m)
  case (Pair r s)
  show ?thesis
  proof (cases r)
    case (Inl e)
    then show ?thesis using assms(1) Pair by simp
  next
    case (Inr a)
    then show ?thesis
      using same_parameters_trans [OF assms(1) assms(2) [of "snd m" a]] Pair by simp
  qed
qed

lemma call_qkv_same_parameters: "same_parameters self (snd (call_qkv self inputs))"
  unfolding call_qkv_def Let_def
  by (auto intro!: bindS_same_parameters split_heads_2d_same_parameters split: list.splits)


lemma call_content_same_parameters: "same_parameters self (snd (call_content self inputs))"
  unfolding call_content_def
  by (auto intro!: bindS_same_parameters call_qkv_same_parameters)

lemma call_logits_same_parameters: "same_parameters self (snd (call_logits self inputs))"
  unfolding call_logits_def
  by (auto intro!: bindS_same_parameters call_content_same_parameters)

lemma call_attend_same_parameters: "same_parameters self (snd (call_attend self logits flat_v))"
  unfolding call_attend_def
  by (auto intro!: bindS_same_parameters)

lemma call_same_parameters: "same_parameters self (snd (call self inputs))"
  unfolding call_def
  by (auto intro!: bindS_same_parameters call_logits_same_parameters call_attend_same_parameters)


lemma agree_refl [simp]: "agree m m"
  by (simp add: agree_def split: sum.splits)

lemma split_heads_2d_agree:
  assumes "same_parameters s1 s2"
  shows "agree (split_heads_2d s1 t) (split_heads_2d s2 t)"
proof -
  have f: "u_shape s2 = u_shape s1" "num_heads s2 = num_heads s1"
    using same_parameters_fields [OF assms] by simp_all
  have u: "s2\<lparr>u_batch := x, u_height := y, u_width := z\<rparr>
             = s1\<lparr>u_batch := x, u_height := y, u_width := z\<rparr>" for x y z
    using assms unfolding same_parameters_def by (cases s1, cases s2) simp
  show ?thesis
    unfolding split_heads_2d_def agree_def
    by (simp add: f u Let_def split: option.splits sum.splits)
qed

lemma bindS_agree:
  assumes "agree m m'" and "\<And>a s. agree (f a s) (f' a s)"
  shows "agree (bindS m f) (bindS m' f')"
proof (cases m)
  case (Pair r s)
  obtain r' s' where m': "m' = (r', s')" by (cases m')
  show ?thesis
  proof (cases r)
    case (Inl e)
    then show ?thesis using assms(1) Pair m' by (auto simp: agree_def)
  next
    case (Inr a)
    then have "r' = Inr a" "s' = s" using assms(1) Pair m' by (auto simp: agree_def)
    then show ?thesis using assms(2) [of a s] Pair m' Inr by simp
  qed
qed

lemma bindS_pure_agree:
  assumes "\<And>a. agree (f a s1) (f' a s2)"
  shows "agree (bindS (r, s1) f) (bindS (r, s2) f')"
proof (cases r)
  case (Inl e)
  then show ?thesis by (simp add: agree_def)
next
  case (Inr a)
  then show ?thesis using assms [of a] by simp
qed

lemma call_qkv_agree:
  assumes "same_parameters s1 s2"
  shows "agree (call_qkv s1 inputs) (call_qkv s2 inputs)"
proof -
  note f = same_parameters_fields [OF assms]
  show ?thesis
    unfolding call_qkv_def f
    apply (rule bindS_pure_agree)
    apply (simp only: f)
    apply (rule bindS_pure_agree)
    subgoal for t qkv
      apply (cases "\<exists>q k v. qkv = [q, k, v]")
       apply (elim exE)
       apply (simp only: list.case)
       apply (intro bindS_agree split_heads_2d_agree [OF assms] agree_refl)
      apply (auto simp: agree_def split: list.splits)
      done
    done
qed

lemma call_content_agree:
  assumes "same_parameters s1 s2"
  shows "agree (call_content s1 inputs) (call_content s2 inputs)"
  unfolding call_content_def
  by (intro bindS_agree call_qkv_agree [OF assms]) simp

lemma call_logits_agree:
  assumes "same_parameters s1 s2"
  shows "agree (call_logits s1 inputs) (call_logits s2 inputs)"
  unfolding call_logits_def
  by (intro bindS_agree call_content_agree [OF assms]) simp

lemma call_agree:
  assumes "same_parameters s1 s2"
  shows "agree (call s1 inputs) (call s2 inputs)"
  unfolding call_def
  by (intro bindS_agree call_logits_agree [OF assms]) simp

text \<open>
  Claim C10. The forward pass is a function of the input tensor and of the layer's
  parameter state. Of the layer's attributes it assigns only \<^verbatim>\<open>_batch\<close>,
  \<^verbatim>\<open>_height\<close> and \<^verbatim>\<open>_width\<close>, and what these held before the invocation does
  not influence the result; so a second invocation on the same input, in the state the
  first one left, returns the same result as the first.
\<close>

theorem call_deterministic:
  "fst (call (self\<lparr>u_batch := b, u_height := h, u_width := w\<rparr>) inputs) = fst (call self inputs)
   \<and> same_parameters self (snd (call self inputs))
   \<and> fst (call (snd (call self inputs)) inputs) = fst (call self inputs)"
proof (intro conjI)
  show "fst (call (self\<lparr>u_batch := b, u_height := h, u_width := w\<rparr>) inputs) = fst (call self inputs)"
    using call_agree [of self "self\<lparr>u_batch := b, u_height := h, u_width := w\<rparr>" inputs]
    by (simp add: agree_def)
  show "same_parameters self (snd (call self inputs))" by (rule call_same_parameters)
  then show "fst (call (snd (call self inputs)) inputs) = fst (call self inputs)"
    using call_agree [of self "snd (call self inputs)" inputs] by (simp add: agree_def)
qed

theorem call_deterministic_witness:
  "fst (call (\<lparr>strides = (1, 1), depth_k = 1, depth_v = 1, num_heads = 1, relative = False,
               axis = - 1, u_shape = Some [1, 1, 1, 3], key_relative_w = None,
               key_relative_h = None, u_batch = None, u_height = None, u_width = None\<rparr>
              \<lparr>u_batch := Some 7, u_height := Some 8, u_width := Some 9\<rparr>)
            \<lparr>shape = [1, 1, 1, 3], elems = [2, 3, 5]\<rparr>)
   = fst (call \<lparr>strides = (1, 1), depth_k = 1, depth_v = 1, num_heads = 1, relative = False,
               axis = - 1, u_shape = Some [1, 1, 1, 3], key_relative_w = None,
               key_relative_h = None, u_batch = None, u_height = None, u_width = None\<rparr>
            \<lparr>shape = [1, 1, 1, 3], elems = [2, 3, 5]\<rparr>)"
  using call_deterministic
    [where self = "\<lparr>strides = (1, 1), depth_k = 1, depth_v = 1, num_heads = 1, relative = False,
               axis = - 1, u_shape = Some [1, 1, 1, 3], key_relative_w = None,
               key_relative_h = None, u_batch = None, u_height = None, u_width = None\<rparr>"
       and b = "Some 7" and h = "Some 8" and w = "Some 9"
       and inputs = "\<lparr>shape = [1, 1, 1, 3], elems = [2, 3, 5]\<rparr>"]
  by (rule conjunct1)

text \<open>
  Claim C5. With \<open>relative = False\<close>, the logits handed to the softmax are exactly the
  content logits (nothing is added to them), and the result of the forward pass is the
  softmax-weighted aggregation applied to the content logits.
\<close>

theorem relative_disabled_content_only:
  assumes "relative self = False"
  shows "call_logits self inputs =
           (case call_content self inputs of
              (Inl e, s) \<Rightarrow> (Inl e, s)
            | (Inr (q, logits, flat_v), s) \<Rightarrow> (Inr (logits, flat_v), s))
       \<and> call self inputs =
           (case call_content self inputs of
              (Inl e, s) \<Rightarrow> (Inl e, s)
            | (Inr (q, logits, flat_v), s) \<Rightarrow> call_attend s logits flat_v)"
proof -
  obtain r s where c: "call_content self inputs = (r, s)" by (cases "call_content self inputs")
  have "same_parameters self s" using call_content_same_parameters [of self inputs] c by simp
  then have rel: "relative s = False" using same_parameters_fields(1) assms by simp
  have l: "call_logits self inputs =
           (case call_content self inputs of
              (Inl e, s) \<Rightarrow> (Inl e, s)
            | (Inr (q, logits, flat_v), s) \<Rightarrow> (Inr (logits, flat_v), s))"
    unfolding call_logits_def c using rel by (cases r) (auto simp: bindS_def)
  show ?thesis
    unfolding call_def l c by (cases r) (auto simp: bindS_def)
qed


theorem relative_disabled_content_only_witness:
  "relative \<lparr>strides = (1, 1), depth_k = 1, depth_v = 1, num_heads = 1, relative = False,
             axis = - 1, u_shape = Some [1, 1, 1, 3], key_relative_w = None,
             key_relative_h = None, u_batch = None, u_height = None, u_width = None\<rparr> = False
   \<and> call_logits \<lparr>strides = (1, 1), depth_k = 1, depth_v = 1, num_heads = 1, relative = False,
             axis = - 1, u_shape = Some [1, 1, 1, 3], key_relative_w = None,
             key_relative_h = None, u_batch = None, u_height = None, u_width = None\<rparr>
          \<lparr>shape = [1, 1, 1, 3], elems = [2, 3, 5]\<rparr>
     = (case call_content \<lparr>strides = (1, 1), depth_k = 1, depth_v = 1, num_heads = 1, relative = False,
             axis = - 1, u_shape = Some [1, 1, 1, 3], key_relative_w = None,
             key_relative_h = None, u_batch = None, u_height = None, u_width = None\<rparr>
          \<lparr>shape = [1, 1, 1, 3], elems = [2, 3, 5]\<rparr> of
          (Inl e, s) \<Rightarrow> (Inl e, s)
        | (Inr (q, logits, flat_v), s) \<Rightarrow> (Inr (logits, flat_v), s))"
  using relative_disabled_content_only
    [of "\<lparr>strides = (1, 1), depth_k = 1, depth_v = 1, num_heads = 1, relative = False,
             axis = - 1, u_shape = Some [1, 1, 1, 3], key_relative_w = None,
             key_relative_h = None, u_batch = None, u_height = None, u_width = None\<rparr>"
        "\<lparr>shape = [1, 1, 1, 3], elems = [2, 3, 5]\<rparr>"]
  by simp

section \<open>The relative logits and the aggregation, by shape\<close>

lemma K_reshape_infer:
  assumes "0 < prod_list rest" "prod_list rest dvd length (elems t)"
  shows "K_reshape t (- 1 # map int rest)
           = Inr \<lparr>shape = (length (elems t) div prod_list rest) # rest, elems = elems t\<rparr>"
proof -
  have f: "filter (\<lambda>d. d = - 1) (map int rest) = []" by (induction rest) auto
  have g: "filter (\<lambda>d. d \<noteq> - 1) (map int rest) = map int rest" by (induction rest) auto
  have m: "map nat (map int rest) = rest" by (simp add: comp_def)
  have n: "map (\<lambda>d. if d = - 1 then c else nat d) (map int xs) = xs" for c xs
    by (induction xs) auto
  have b: "\<not> (\<exists>d\<in>set (map int rest). d < - 1)" by auto
  show ?thesis
    unfolding K_reshape_def using assms b
    by (simp add: f g m n Let_def del: map_map set_map)
qed


lemma tf_einsum_shape:
  fixes q :: "('a::semiring_0) tensor"
  assumes "shape q = [B, n, H, W, d]" "shape tbl = [M, d]"
  obtains r where "tf_einsum q tbl = Inr r" "shape r = [B, n, H, W, M]" "wf_tensor r"
proof -
  have "take 4 [B, n, H, W, d] = [B, n, H, W]" by (simp add: numeral_eq_Suc)
  then have "\<exists>r. tf_einsum q tbl = Inr r \<and> shape r = [B, n, H, W, M] \<and> wf_tensor r"
    unfolding tf_einsum_def by (simp add: assms)
  then show ?thesis using that by (elim exE conjE)
qed

lemma rel_to_abs_shape:
  fixes x :: "('a::zero) tensor"
  assumes "shape x = [B, N, L, 2 * L - 1]" "0 < L" "wf_tensor x"
  obtains y where "rel_to_abs x = Inr y" "shape y = [B, N, L, L]" "wf_tensor y"
  using rel_to_abs_unfold [OF assms] by blast

lemma div_mult_cancel_left:
  fixes a b c :: nat
  assumes "0 < a"
  shows "(a * b) div a = b" "a dvd a * b"
  using assms by simp_all

lemma relative_logits_1d_shape:
  assumes nh: "num_heads self = int n" and pos: "0 < n" "0 < Hp" "0 < Wp"
    and q: "shape q = [B, n, Hp, Wp, d]"
    and tbl: "shape tbl = [M, d]"
    and dv: "B * M = B1 * (2 * Wp - 1)"
    and tmask: "tmask = [0, 1, 2, 4, 3, 5] \<or> tmask = [0, 1, 4, 2, 5, 3]"
  obtains r where "relative_logits_1d self q (Some tbl) (int Hp) (int Wp) tmask = Inr r"
    and "shape r = [B1, n, Hp * Wp, Hp * Wp]" "wf_tensor r"
proof -
  define c where "c = 2 * Wp - 1"
  have cpos: "0 < c" using pos by (simp add: c_def)
  obtain r0 where r0: "tf_einsum q tbl = Inr r0" "shape r0 = [B, n, Hp, Wp, M]" "wf_tensor r0"
    by (rule tf_einsum_shape [OF q tbl]) blast
  have len0: "length (elems r0) = (n * Hp * Wp * c) * B1"
  proof -
    have "length (elems r0) = n * Hp * Wp * (B * M)"
      using r0(2,3) by (simp add: wf_tensor_def mult_ac)
    then show ?thesis unfolding dv c_def [symmetric] by (simp add: mult_ac)
  qed
  have p1: "0 < n * Hp * Wp * c" using pos cpos by simp
  define r1 where "r1 = \<lparr>shape = [B1, n * Hp, Wp, c], elems = elems r0\<rparr>"
  have e1: "[- 1, int n * int Hp, int Wp, 2 * int Wp - 1] = - 1 # map int [n * Hp, Wp, c]"
    using pos by (simp add: c_def)
  have s1: "K_reshape r0 [- 1, int n * int Hp, int Wp, 2 * int Wp - 1] = Inr r1"
    unfolding e1 r1_def
    using K_reshape_infer [of "[n * Hp, Wp, c]" r0] p1 div_mult_cancel_left [OF p1, of B1]
    by (simp add: len0 mult_ac)
  have r1: "shape r1 = [B1, n * Hp, Wp, 2 * Wp - 1]" "wf_tensor r1"
    by (simp_all add: r1_def wf_tensor_def len0 c_def mult_ac)
  obtain r2 where s2: "rel_to_abs r1 = Inr r2" and r2: "shape r2 = [B1, n * Hp, Wp, Wp]" "wf_tensor r2"
    by (rule rel_to_abs_shape [OF r1(1) pos(3) r1(2)]) blast
  have len2: "length (elems r2) = (n * Hp * Wp * Wp) * B1"
    using r2 by (simp add: wf_tensor_def mult_ac)
  have p2: "0 < n * Hp * Wp * Wp" using pos by simp
  define r3 where "r3 = \<lparr>shape = [B1, n, Hp, Wp, Wp], elems = elems r2\<rparr>"
  have e3: "[- 1, int n, int Hp, int Wp, int Wp] = - 1 # map int [n, Hp, Wp, Wp]" by simp
  have s3: "K_reshape r2 [- 1, int n, int Hp, int Wp, int Wp] = Inr r3"
    unfolding e3 r3_def
    using K_reshape_infer [of "[n, Hp, Wp, Wp]" r2] p2 div_mult_cancel_left [OF p2, of B1]
    by (simp add: len2 mult_ac)
  define r4 where "r4 = \<lparr>shape = [B1, n, Hp, 1, Wp, Wp], elems = elems r2\<rparr>"
  have s4: "K_expand_dims r3 3 = Inr r4"
    by (simp add: K_expand_dims_def r3_def r4_def numeral_3_eq_3)
  obtain r5 where s5: "K_tile r4 [1, 1, 1, int Hp, 1, 1] = Inr r5"
    and r5: "shape r5 = [B1, n, Hp, Hp, Wp, Wp]" "wf_tensor r5"
    by (simp add: K_tile_def r4_def)
  obtain r6 where s6: "K_permute_dimensions r5 tmask = Inr r6"
    and r6: "length (elems r6) = (n * (Hp * Wp) * (Hp * Wp)) * B1"
  proof (cases "tmask = [0, 1, 2, 4, 3, 5]")
    case True
    show ?thesis
      by (rule that [OF K_permute_ok [of tmask r5 "[B1, n, Hp, Wp, Hp, Wp]"]])
         (simp_all add: True r5 mult_ac)
  next
    case False
    then have m: "tmask = [0, 1, 4, 2, 5, 3]" using tmask by simp
    show ?thesis
      by (rule that [OF K_permute_ok [of tmask r5 "[B1, n, Wp, Hp, Wp, Hp]"]])
         (simp_all add: m r5 mult_ac)
  qed
  have p6: "0 < n * (Hp * Wp) * (Hp * Wp)" using pos by simp
  define r where "r = \<lparr>shape = [B1, n, Hp * Wp, Hp * Wp], elems = elems r6\<rparr>"
  have e7: "[- 1, int n, int Hp * int Wp, int Hp * int Wp] = - 1 # map int [n, Hp * Wp, Hp * Wp]"
    by simp
  have s7: "K_reshape r6 [- 1, int n, int Hp * int Wp, int Hp * int Wp] = Inr r"
    unfolding e7 r_def
    using K_reshape_infer [of "[n, Hp * Wp, Hp * Wp]" r6] p6 div_mult_cancel_left [OF p6, of B1]
    by (simp add: r6 mult_ac)
  have res: "relative_logits_1d self q (Some tbl) (int Hp) (int Wp) tmask = Inr r"
    unfolding relative_logits_1d_def
    by (simp add: attr_def nh r0 s1 s2 s3 s4 s5 s6 s7)
  show ?thesis
    by (rule that [OF res]) (simp_all add: r_def wf_tensor_def r6 mult_ac)
qed



lemma permute_01324_shape:
  assumes "shape q = [B, n, H, W, d]"
  obtains qt where "K_permute_dimensions q [0, 1, 3, 2, 4] = Inr qt" "shape qt = [B, n, W, H, d]"
    "wf_tensor qt"
  by (rule that [OF K_permute_ok [of "[0, 1, 3, 2, 4]" q "[B, n, W, H, d]"]])
     (simp_all add: assms)

lemma relative_logits_shape:
  assumes nh: "num_heads self = int n" and pos: "0 < n" "0 < H" "0 < W"
    and q: "shape q = [B, n, H, W, d]"
    and tw: "key_relative_w self = Some tw" "shape tw = [Mw, d]"
    and th: "key_relative_h self = Some th" "shape th = [Mh, d]"
    and dw: "B * Mw = Bw * (2 * W - 1)"
    and dh: "B * Mh = Bh * (2 * H - 1)"
  obtains rh rw where "relative_logits self q = Inr (rh, rw)"
    and "shape rh = [Bh, n, H * W, H * W]" "wf_tensor rh"
    and "shape rw = [Bw, n, H * W, H * W]" "wf_tensor rw"
proof -
  obtain rw where w: "relative_logits_1d self q (Some tw) (int H) (int W) [0, 1, 2, 4, 3, 5] = Inr rw"
    and rw: "shape rw = [Bw, n, H * W, H * W]" "wf_tensor rw"
    by (rule relative_logits_1d_shape [OF nh pos q tw(2) dw, of "[0, 1, 2, 4, 3, 5]"]) blast+
  obtain qt where p: "K_permute_dimensions q [0, 1, 3, 2, 4] = Inr qt"
    and qt: "shape qt = [B, n, W, H, d]"
    by (rule permute_01324_shape [OF q]) blast
  obtain rh where h: "relative_logits_1d self qt (Some th) (int W) (int H) [0, 1, 4, 2, 5, 3] = Inr rh"
    and rh: "shape rh = [Bh, n, W * H, W * H]" "wf_tensor rh"
    by (rule relative_logits_1d_shape [OF nh pos(1,3,2) qt th(2) dh, of "[0, 1, 4, 2, 5, 3]"]) blast+
  have res: "relative_logits self q = Inr (rh, rw)"
    unfolding relative_logits_def
    by (simp add: K_shape_def q Let_def tw(1) th(1) w p h del: One_nat_def)
  show ?thesis
    by (rule that [OF res _ rh(2) rw]) (simp add: rh(1) mult.commute)
qed

lemma tensor_add_shape:
  fixes a b :: "('a::plus) tensor"
  assumes "shape a = [B, n, P, Q]" "shape b = [B1, n, P, Q]" "B1 = B \<or> B1 = 1"
  obtains r where "tensor_add a b = Inr r" "shape r = [B, n, P, Q]" "wf_tensor r"
proof -
  have "broadcast_rev [Q, P, n, B] [Q, P, n, B1] = Some [Q, P, n, B]"
    using assms(3) by auto
  then have "\<exists>r. tensor_add a b = Inr r \<and> shape r = [B, n, P, Q] \<and> wf_tensor r"
    unfolding tensor_add_def by (simp add: assms(1,2))
  then show ?thesis using that by (elim exE conjE)
qed

lemma K_softmax_shape:
  assumes "shape t = s" "s \<noteq> []"
  obtains r where "K_softmax t = Inr r" "shape r = s" "wf_tensor r"
proof -
  have "\<exists>r. K_softmax t = Inr r \<and> shape r = s \<and> wf_tensor r"
    unfolding K_softmax_def using assms by simp
  then show ?thesis using that by (elim exE conjE)
qed

lemma call_attend_shape:
  assumes st: "u_batch self = Some (int B)" "u_height self = Some (int H)"
      "u_width self = Some (int W)"
    and cfg: "depth_v self = int v" "num_heads self = int n" and pos: "0 < n" and dv: "n dvd v"
    and l: "shape logits = [B, n, H * W, H * W]"
    and fv: "shape fv = [B, n, H * W, v div n]"
  obtains y where
    "call_attend self logits fv
       = (if axis self = 1 then K_permute_dimensions y [0, 3, 1, 2] else Inr y, self)"
    and "shape y = [B, H, W, v]" "wf_tensor y"
proof -
  obtain w where s1: "K_softmax logits = Inr w" and w: "shape w = [B, n, H * W, H * W]"
    by (rule K_softmax_shape [OF l]) blast+
  obtain a where s2: "tf_matmul w fv False = Inr a"
    and a: "shape a = [B, n, H * W, v div n]" "wf_tensor a"
    by (rule tf_matmul_spec [OF w fv]) blast
  have fd: "py_floordiv (int v) (int n) = Inr (int (v div n))"
    using pos by (simp add: py_floordiv_def zdiv_int)
  define a' where "a' = \<lparr>shape = [B, n, H, W, v div n], elems = elems a\<rparr>"
  have e: "[int B, int n, int H, int W, int (v div n)] = map int [B, n, H, W, v div n]" by simp
  have len: "length (elems a) = B * n * (H * W) * (v div n)"
    using a by (simp add: wf_tensor_def)
  have s3: "K_reshape a [int B, int n, int H, int W, int (v div n)] = Inr a'"
    unfolding e a'_def by (rule K_reshape_nat) (simp add: len mult_ac)
  have a': "shape a' = [B, n, H, W, v div n]" "wf_tensor a'"
    by (simp_all add: a'_def wf_tensor_def len mult_ac)
  define y where "y = \<lparr>shape = [B, H, W, n * (v div n)],
          elems = elems (tabulate [B, H, W, n, v div n] (\<lambda>idx. entry a' (unpermute [0, 2, 3, 1, 4] idx)))\<rparr>"
  have s4: "combine_heads_2d a' = Inr y"
    unfolding y_def by (rule combine_heads_2d_ok [OF a'])
  have nv: "n * (v div n) = v" using dv by simp
  have res: "call_attend self logits fv
       = (if axis self = 1 then K_permute_dimensions y [0, 3, 1, 2] else Inr y, self)"
    unfolding call_attend_def
    by (simp add: s1 s2 st attr_def cfg fd s3 s4)
  show ?thesis
    by (rule that [OF res]) (simp_all add: y_def nv wf_tensor_def mult_ac)
qed

section \<open>The attention weights\<close>

lemma sum_list_exp_pos:
  fixes xs :: "real list"
  assumes "xs \<noteq> []"
  shows "0 < (\<Sum>v\<leftarrow>xs. exp (v - m))"
proof -
  obtain x ys where xs: "xs = x # ys" using assms by (cases xs) auto
  have "0 \<le> (\<Sum>v\<leftarrow>ys. exp (v - m))" by (rule sum_list_nonneg) auto
  moreover have "0 < exp (x - m)" by simp
  ultimately have "0 < exp (x - m) + (\<Sum>v\<leftarrow>ys. exp (v - m))" by (rule add_pos_nonneg [rotated])
  then show ?thesis unfolding xs by simp
qed

lemma sum_list_divide_const:
  fixes f :: "'b \<Rightarrow> real"
  shows "(\<Sum>x\<leftarrow>xs. f x / c) = (\<Sum>x\<leftarrow>xs. f x) / c"
  by (induction xs) (simp_all add: add_divide_distrib)

lemma valid_index_snoc:
  assumes "valid_index s idx" "s \<noteq> []" "j < last s"
  shows "valid_index s (butlast idx @ [j])"
proof -
  have l: "length idx = length s" using assms(1) by (simp add: valid_index_def list_all2_lengthD)
  then have i: "idx \<noteq> []" using assms(2) by auto
  have "list_all2 (<) (butlast idx @ [last idx]) (butlast s @ [last s])"
    using assms(1) i assms(2) by (simp add: valid_index_def)
  then have "list_all2 (<) (butlast idx) (butlast s)"
    using l by (simp add: list_all2_append)
  then have "list_all2 (<) (butlast idx @ [j]) (butlast s @ [last s])"
    using assms(3) l by (simp add: list_all2_append)
  then show ?thesis using assms(2) by (simp add: valid_index_def)
qed

lemma K_softmax_rows:
  assumes ne: "shape t \<noteq> []"
  obtains w where "K_softmax t = Inr w" and "shape w = shape t" "wf_tensor w"
    and "\<And>idx. valid_index (shape t) idx \<Longrightarrow> 0 < entry w idx"
    and "\<And>idx. valid_index (shape t) idx \<Longrightarrow>
           (\<Sum>j\<leftarrow>[0..<last (shape t)]. entry w (butlast idx @ [j])) = 1"
proof -
  define f where "f = (\<lambda>idx. let row = map (\<lambda>j. entry t (butlast idx @ [j])) [0..<last (shape t)];
                        m = Max (set row)
                    in exp (entry t idx - m) / sum_list (map (\<lambda>v. exp (v - m)) row))"
  define w where "w = tabulate (shape t) f"
  have r: "K_softmax t = Inr w" unfolding K_softmax_def w_def f_def using ne by simp
  have ew: "entry w idx = f idx" if "valid_index (shape t) idx" for idx
    unfolding w_def by (rule entry_tabulate [OF that])
  have lastpos: "0 < last (shape t)" if v: "valid_index (shape t) idx" for idx
  proof -
    have l: "length idx = length (shape t)" using v by (simp add: valid_index_def list_all2_lengthD)
    then have i: "idx \<noteq> []" using ne by auto
    have "list_all2 (<) (butlast idx @ [last idx]) (butlast (shape t) @ [last (shape t)])"
      using v i ne by (simp add: valid_index_def)
    then have "last idx < last (shape t)" using l by (simp add: list_all2_append)
    then show ?thesis by simp
  qed
  have pos: "0 < entry w idx" if v: "valid_index (shape t) idx" for idx
  proof -
    have "map (\<lambda>j. entry t (butlast idx @ [j])) [0..<last (shape t)] \<noteq> []"
      using lastpos [OF v] by simp
    then show ?thesis unfolding ew [OF v] f_def Let_def
      by (intro divide_pos_pos sum_list_exp_pos) simp_all
  qed
  have rows: "(\<Sum>j\<leftarrow>[0..<last (shape t)]. entry w (butlast idx @ [j])) = 1"
    if v: "valid_index (shape t) idx" for idx
  proof -
    define row where "row = map (\<lambda>j. entry t (butlast idx @ [j])) [0..<last (shape t)]"
    define m where "m = Max (set row)"
    define S where "S = (\<Sum>v\<leftarrow>row. exp (v - m))"
    have "row \<noteq> []" unfolding row_def using lastpos [OF v] by simp
    then have S: "0 < S" unfolding S_def by (rule sum_list_exp_pos)
    have e: "entry w (butlast idx @ [j]) = exp (entry t (butlast idx @ [j]) - m) / S"
      if "j < last (shape t)" for j
      unfolding ew [OF valid_index_snoc [OF v ne that]] f_def Let_def S_def m_def row_def
      by simp
    have "(\<Sum>j\<leftarrow>[0..<last (shape t)]. entry w (butlast idx @ [j]))
        = (\<Sum>j\<leftarrow>[0..<last (shape t)]. exp (entry t (butlast idx @ [j]) - m) / S)"
      by (rule arg_cong [of _ _ sum_list], rule map_cong [OF refl]) (simp add: e)
    also have "\<dots> = (\<Sum>j\<leftarrow>[0..<last (shape t)]. exp (entry t (butlast idx @ [j]) - m)) / S"
      by (rule sum_list_divide_const)
    also have "(\<Sum>j\<leftarrow>[0..<last (shape t)]. exp (entry t (butlast idx @ [j]) - m)) = S"
      unfolding S_def row_def by (simp add: comp_def)
    also have "S / S = 1" using S by simp
    finally show ?thesis .
  qed
  show ?thesis
    by (rule that [OF r _ _ pos rows]) (simp_all add: w_def)
qed


text \<open>
  Claim C8. Real arithmetic stands for the tensors' floating-point arithmetic, so the
  row sums are exactly one and the tolerance of the floating-point kernel is not part of
  the statement. For all logits of shape \<open>(B, heads, P, Q)\<close>, whatever the magnitudes
  of their entries, and every value tensor of shape \<open>(B, heads, Q, d)\<close>, lines 87--88 of
  \<open>call\<close> succeed: \<open>weights = K.softmax(logits, axis=-1)\<close> has the shape of the logits,
  every weight is non-negative, every row of weights along the last axis sums to one,
  and every row of \<open>attn_out = tf.matmul(weights, flat_v)\<close> is the sum of the rows of
  \<open>flat_v\<close> with these weights, that is a convex combination of value vectors. The rest
  of \<open>call\<close> (lines 90--100) is applied to this \<open>attn_out\<close>.
\<close>

theorem attention_weights_convex:
  assumes "shape logits = [B, n, P, Q]" and "shape flat_v = [B, n, Q, d]"
  shows "\<exists>weights attn_out.
      K_softmax logits = Inr weights
    \<and> tf_matmul weights flat_v False = Inr attn_out
    \<and> call_attend self logits flat_v =
        bindS (bindE (attr (u_batch self) ''_batch'') (\<lambda>b.
               bindE (attr (u_height self) ''_height'') (\<lambda>h.
               bindE (attr (u_width self) ''_width'') (\<lambda>w.
               bindE (py_floordiv (depth_v self) (num_heads self)) (\<lambda>d.
               K_reshape attn_out [b, num_heads self, h, w, d])))), self) (\<lambda>attn_out self.
        bindS (combine_heads_2d attn_out, self) (\<lambda>attn_out self.
        if axis self = 1 then (K_permute_dimensions attn_out [0, 3, 1, 2], self)
        else (Inr attn_out, self)))
    \<and> shape weights = [B, n, P, Q]
    \<and> shape attn_out = [B, n, P, d]
    \<and> (\<forall>b<B. \<forall>h<n. \<forall>p<P. \<forall>j<Q. 0 \<le> entry weights [b, h, p, j])
    \<and> (\<forall>b<B. \<forall>h<n. \<forall>p<P. 0 < Q \<longrightarrow> (\<Sum>j\<leftarrow>[0..<Q]. entry weights [b, h, p, j]) = 1)
    \<and> (\<forall>b<B. \<forall>h<n. \<forall>p<P. \<forall>c<d.
          entry attn_out [b, h, p, c]
            = (\<Sum>j\<leftarrow>[0..<Q]. entry weights [b, h, p, j] * entry flat_v [b, h, j, c]))"
proof -
  have ne: "shape logits \<noteq> []" using assms(1) by simp
  obtain w where s1: "K_softmax logits = Inr w" and w: "shape w = shape logits"
    and pos: "\<And>idx. valid_index (shape logits) idx \<Longrightarrow> 0 < entry w idx"
    and rows: "\<And>idx. valid_index (shape logits) idx \<Longrightarrow>
           (\<Sum>j\<leftarrow>[0..<last (shape logits)]. entry w (butlast idx @ [j])) = 1"
    by (rule K_softmax_rows [OF ne]) blast
  have w4: "shape w = [B, n, P, Q]" using w assms(1) by simp
  obtain a where s2: "tf_matmul w flat_v False = Inr a"
    and a: "shape a = [B, n, P, d]"
    and ea: "\<And>i h p c. i < B \<Longrightarrow> h < n \<Longrightarrow> p < P \<Longrightarrow> c < d \<Longrightarrow>
          entry a [i, h, p, c] = (\<Sum>j\<leftarrow>[0..<Q]. entry w [i, h, p, j] * entry flat_v [i, h, j, c])"
    by (rule tf_matmul_spec [OF w4 assms(2)]) blast
  have res: "call_attend self logits flat_v =
        bindS (bindE (attr (u_batch self) ''_batch'') (\<lambda>b.
               bindE (attr (u_height self) ''_height'') (\<lambda>h.
               bindE (attr (u_width self) ''_width'') (\<lambda>w.
               bindE (py_floordiv (depth_v self) (num_heads self)) (\<lambda>d.
               K_reshape a [b, num_heads self, h, w, d])))), self) (\<lambda>attn_out self.
        bindS (combine_heads_2d attn_out, self) (\<lambda>attn_out self.
        if axis self = 1 then (K_permute_dimensions attn_out [0, 3, 1, 2], self)
        else (Inr attn_out, self)))"
    unfolding call_attend_def by (simp add: s1 s2)
  have nonneg: "0 \<le> entry w [b, h, p, j]" if "b < B" "h < n" "p < P" "j < Q" for b h p j
  proof -
    have "0 < entry w [b, h, p, j]" by (rule pos) (simp add: assms(1) that)
    then show ?thesis by simp
  qed
  have one: "(\<Sum>j\<leftarrow>[0..<Q]. entry w [b, h, p, j]) = 1" if "b < B" "h < n" "p < P" "0 < Q" for b h p
    using rows [of "[b, h, p, 0]"] that by (simp add: assms(1))
  show ?thesis
    apply (rule exI [of _ w], rule exI [of _ a])
    apply (intro conjI allI impI)
    apply (rule s1 s2 res w4 a)+
    apply (erule (3) nonneg)
    apply (erule (3) one)
    apply (erule (3) ea)
    done
qed

theorem attention_weights_convex_witness:
  "\<exists>weights attn_out.
      K_softmax \<lparr>shape = [1, 1, 2, 2], elems = [1000, - 1000, 0, 0]\<rparr> = Inr weights
    \<and> tf_matmul weights \<lparr>shape = [1, 1, 2, 2], elems = [2, 4, 6, 8]\<rparr> False = Inr attn_out
    \<and> shape attn_out = [1, 1, 2, 2]
    \<and> 0 \<le> entry weights [0, 0, 0, 0] \<and> 0 \<le> entry weights [0, 0, 0, 1]
    \<and> entry weights [0, 0, 0, 0] + entry weights [0, 0, 0, 1] = 1
    \<and> entry attn_out [0, 0, 0, 0] = entry weights [0, 0, 0, 0] * 2 + entry weights [0, 0, 0, 1] * 6
    \<and> entry attn_out [0, 0, 0, 1] = entry weights [0, 0, 0, 0] * 4 + entry weights [0, 0, 0, 1] * 8
    \<and> 2 \<le> entry attn_out [0, 0, 0, 0] \<and> entry attn_out [0, 0, 0, 0] \<le> 6"
proof -
  let ?l = "\<lparr>shape = [1, 1, 2, 2], elems = [1000, - 1000, 0, 0 :: real]\<rparr>"
  let ?v = "\<lparr>shape = [1, 1, 2, 2], elems = [2, 4, 6, 8 :: real]\<rparr>"
  let ?self = "\<lparr>strides = (1, 1), depth_k = 2, depth_v = 2, num_heads = 1, relative = False,
         axis = - 1, u_shape = Some [1, 1, 2, 6], key_relative_w = None, key_relative_h = None,
         u_batch = Some 1, u_height = Some 1, u_width = Some 2\<rparr>"
  obtain w a where r: "K_softmax ?l = Inr w" "tf_matmul w ?v False = Inr a"
      "shape a = [1, 1, 2, 2]"
    and nn: "\<forall>b<1. \<forall>h<1. \<forall>p<2. \<forall>j<2. 0 \<le> entry w [b, h, p, j]"
    and one: "\<forall>b<1. \<forall>h<1. \<forall>p<2. 0 < (2::nat) \<longrightarrow> (\<Sum>j\<leftarrow>[0..<2]. entry w [b, h, p, j]) = 1"
    and ea: "\<forall>b<1. \<forall>h<1. \<forall>p<2. \<forall>c<2.
          entry a [b, h, p, c] = (\<Sum>j\<leftarrow>[0..<2]. entry w [b, h, p, j] * entry ?v [b, h, j, c])"
    using attention_weights_convex [of ?l 1 1 2 2 ?v 2 ?self] by auto
  have u: "[0..<2] = [0, 1]" by (simp add: upt_rec)
  have w0: "0 \<le> entry w [0, 0, 0, 0]" using nn [rule_format, of 0 0 0 0] by simp
  have w1: "0 \<le> entry w [0, 0, 0, 1]" using nn [rule_format, of 0 0 0 1] by simp
  have s: "entry w [0, 0, 0, 0] + entry w [0, 0, 0, 1] = 1"
    using one [rule_format, of 0 0 0] unfolding u by simp
  have a0: "entry a [0, 0, 0, 0] = entry w [0, 0, 0, 0] * 2 + entry w [0, 0, 0, 1] * 6"
    using ea [rule_format, of 0 0 0 0] unfolding u by (simp add: entry_def)
  have a1: "entry a [0, 0, 0, 1] = entry w [0, 0, 0, 0] * 4 + entry w [0, 0, 0, 1] * 8"
    using ea [rule_format, of 0 0 0 1] unfolding u by (simp add: entry_def)
  have b: "2 \<le> entry a [0, 0, 0, 0]" "entry a [0, 0, 0, 0] \<le> 6"
    using w0 w1 s unfolding a0 by linarith+
  show ?thesis using r w0 w1 s a0 a1 b by blast
qed

section \<open>The forward pass, by shape\<close>

lemma call_logits_shape:
  assumes cfg: "depth_k self = int k" "depth_v self = int v" "num_heads self = int n"
    and pos: "0 < n" "0 < k"
    and dv: "n dvd k" "n dvd v"
    and shp: "u_shape self = Some shp" "length shp = 4"
    and canon: "(if axis self = 1 then K_permute_dimensions inputs [0, 2, 3, 1] else Inr inputs) = Inr t"
    and sh: "shape t = [B, H, W, k + k + v]" and wf: "wf_tensor t"
    and rel: "relative self \<Longrightarrow>
        0 < H \<and> 0 < W
        \<and> key_relative_w self = Some tw \<and> shape tw = [Mw, k div n]
        \<and> key_relative_h self = Some th \<and> shape th = [Mh, k div n]
        \<and> B * Mw = Bw * (2 * W - 1) \<and> B * Mh = Bh * (2 * H - 1)
        \<and> (Bw = B \<or> Bw = 1) \<and> (Bh = B \<or> Bh = 1)"
  obtains logits fv where
      "call_logits self inputs =
        (Inr (logits, fv),
         self\<lparr>u_batch := Some (int B), u_height := Some (int H), u_width := Some (int W)\<rparr>)"
    and "shape logits = [B, n, H * W, H * W]"
    and "shape fv = [B, n, H * W, v div n]"
proof -
  define self1 where
    "self1 = self\<lparr>u_batch := Some (int B), u_height := Some (int H), u_width := Some (int W)\<rparr>"
  obtain q l0 fv where c: "call_content self inputs = (Inr (q, l0, fv), self1)"
    and q: "shape q = [B, n, H, W, k div n]"
    and l0: "shape l0 = [B, n, H * W, H * W]"
    and fv: "shape fv = [B, n, H * W, v div n]"
    unfolding self1_def by (rule call_content_spec [OF cfg pos dv shp canon sh wf]) blast
  have s1: "relative self1 = relative self" "num_heads self1 = int n"
    "key_relative_w self1 = key_relative_w self" "key_relative_h self1 = key_relative_h self"
    by (simp_all add: self1_def cfg)
  show ?thesis
  proof (cases "relative self")
    case False
    have "call_logits self inputs = (Inr (l0, fv), self1)"
      unfolding call_logits_def by (simp add: c s1 False)
    then show ?thesis using l0 fv unfolding self1_def by (rule that)
  next
    case True
    note r = rel [OF True]
    have hw: "0 < H" "0 < W" using r by simp_all
    have tw: "key_relative_w self1 = Some tw" "shape tw = [Mw, k div n]" using r s1 by simp_all
    have th: "key_relative_h self1 = Some th" "shape th = [Mh, k div n]" using r s1 by simp_all
    have dw: "B * Mw = Bw * (2 * W - 1)" and dh: "B * Mh = Bh * (2 * H - 1)" using r by simp_all
    have bw: "Bw = B \<or> Bw = 1" and bh: "Bh = B \<or> Bh = 1" using r by simp_all
    obtain rh rw where rl: "relative_logits self1 q = Inr (rh, rw)"
      and rh: "shape rh = [Bh, n, H * W, H * W]"
      and rw: "shape rw = [Bw, n, H * W, H * W]"
      by (rule relative_logits_shape [OF s1(2) pos(1) hw q tw th dw dh]) blast
    obtain l1 where a1: "tensor_add l0 rh = Inr l1" and l1: "shape l1 = [B, n, H * W, H * W]"
      by (rule tensor_add_shape [OF l0 rh bh]) blast
    obtain l2 where a2: "tensor_add l1 rw = Inr l2" and l2: "shape l2 = [B, n, H * W, H * W]"
      by (rule tensor_add_shape [OF l1 rw bw]) blast
    have "call_logits self inputs = (Inr (l2, fv), self1)"
      unfolding call_logits_def by (simp add: c s1 True rl a1 a2)
    then show ?thesis using l2 fv unfolding self1_def by (rule that)
  qed
qed

lemma call_shape:
  assumes cfg: "depth_k self = int k" "depth_v self = int v" "num_heads self = int n"
    and pos: "0 < n" "0 < k"
    and dv: "n dvd k" "n dvd v"
    and shp: "u_shape self = Some shp" "length shp = 4"
    and canon: "(if axis self = 1 then K_permute_dimensions inputs [0, 2, 3, 1] else Inr inputs) = Inr t"
    and sh: "shape t = [B, H, W, k + k + v]" and wf: "wf_tensor t"
    and rel: "relative self \<Longrightarrow>
        0 < H \<and> 0 < W
        \<and> key_relative_w self = Some tw \<and> shape tw = [Mw, k div n]
        \<and> key_relative_h self = Some th \<and> shape th = [Mh, k div n]
        \<and> B * Mw = Bw * (2 * W - 1) \<and> B * Mh = Bh * (2 * H - 1)
        \<and> (Bw = B \<or> Bw = 1) \<and> (Bh = B \<or> Bh = 1)"
  obtains y where
      "call self inputs =
        (if axis self = 1 then K_permute_dimensions y [0, 3, 1, 2] else Inr y,
         self\<lparr>u_batch := Some (int B), u_height := Some (int H), u_width := Some (int W)\<rparr>)"
    and "shape y = [B, H, W, v]" "wf_tensor y"
proof -
  define self1 where
    "self1 = self\<lparr>u_batch := Some (int B), u_height := Some (int H), u_width := Some (int W)\<rparr>"
  obtain logits fv where c: "call_logits self inputs = (Inr (logits, fv), self1)"
    and l: "shape logits = [B, n, H * W, H * W]"
    and fv: "shape fv = [B, n, H * W, v div n]"
    unfolding self1_def by (rule call_logits_shape [OF cfg pos dv shp canon sh wf rel]) blast+
  have s1: "u_batch self1 = Some (int B)" "u_height self1 = Some (int H)"
    "u_width self1 = Some (int W)" "depth_v self1 = int v" "num_heads self1 = int n"
    "axis self1 = axis self"
    by (simp_all add: self1_def cfg)
  obtain y where a: "call_attend self1 logits fv
       = (if axis self1 = 1 then K_permute_dimensions y [0, 3, 1, 2] else Inr y, self1)"
    and y: "shape y = [B, H, W, v]" "wf_tensor y"
    by (rule call_attend_shape [OF s1(1-5) pos(1) dv(2) l fv]) blast
  have "call self inputs =
        (if axis self = 1 then K_permute_dimensions y [0, 3, 1, 2] else Inr y, self1)"
    unfolding call_def by (simp add: c a s1)
  then show ?thesis using y unfolding self1_def by (rule that)
qed

lemma build_inv:
  assumes b: "build self0 s0 iw ih = Inr self"
    and s0: "s0 = (if axis self0 = 1 then [B0, C0, H0, W0] else [B0, H0, W0, C0])"
    and cfg: "depth_k self0 = int k" "num_heads self0 = int n"
  shows "depth_k self = depth_k self0" "depth_v self = depth_v self0"
    "num_heads self = num_heads self0" "relative self = relative self0"
    "axis self = axis self0" "u_shape self = Some s0" "length s0 = 4"
    and "relative self0 \<Longrightarrow>
           0 < H0 \<and> 0 < W0
           \<and> (\<exists>tw th. key_relative_w self = Some tw \<and> shape tw = [2 * W0 - 1, k div n]
                     \<and> key_relative_h self = Some th \<and> shape th = [2 * H0 - 1, k div n])"
proof -
  have len: "length s0 = 4" by (simp add: s0)
  have hw: "(if axis self0 = 1 then s0 ! 2 else s0 ! 1) = H0"
    "(if axis self0 = 1 then s0 ! 3 else s0 ! 2) = W0"
    by (simp_all add: s0)
  have n1: "nat (2 * int m - 1) = 2 * m - 1" for m :: nat by (simp add: nat_diff_distrib')
  show "length s0 = 4" by (rule len)
  have *: "depth_k self = depth_k self0 \<and> depth_v self = depth_v self0
    \<and> num_heads self = num_heads self0 \<and> relative self = relative self0
    \<and> axis self = axis self0 \<and> u_shape self = Some s0
    \<and> (relative self0 \<longrightarrow>
           0 < H0 \<and> 0 < W0
           \<and> (\<exists>tw th. key_relative_w self = Some tw \<and> shape tw = [2 * W0 - 1, k div n]
                     \<and> key_relative_h self = Some th \<and> shape th = [2 * H0 - 1, k div n]))"
    using b unfolding build_def Let_def
    by (auto simp: len hw cfg py_floordiv_def py_pow_neg_half_def add_weight_def bindE_def
        zdiv_int [symmetric] n1 split: if_splits)
  then show "depth_k self = depth_k self0" "depth_v self = depth_v self0"
    "num_heads self = num_heads self0" "relative self = relative self0"
    "axis self = axis self0" "u_shape self = Some s0"
    and "relative self0 \<Longrightarrow>
           0 < H0 \<and> 0 < W0
           \<and> (\<exists>tw th. key_relative_w self = Some tw \<and> shape tw = [2 * W0 - 1, k div n]
                     \<and> key_relative_h self = Some th \<and> shape th = [2 * H0 - 1, k div n])"
    by simp_all
qed


lemma init_fields:
  assumes "init (PyInt k) (PyInt v) n rel strd fmt = Inr self0"
  shows "depth_k self0 = k" "depth_v self0 = v" "num_heads self0 = n" "relative self0 = rel"
    "axis self0 = (if fmt = ''channels_first'' then 1 else - 1)"
  using assms unfolding init_def by auto

lemma canon_input:
  assumes "shape x = (if ax = 1 then [B, C, H, W] else [B, H, W, C])" "wf_tensor x"
  obtains t where
    "(if (ax::int) = 1 then K_permute_dimensions x [0, 2, 3, 1] else Inr x) = Inr t"
    "shape t = [B, H, W, C]" "wf_tensor t"
proof (cases "ax = 1")
  case True
  have sx: "shape x = [B, C, H, W]" using assms(1) True by simp
  have p: "K_permute_dimensions x [0, 2, 3, 1]
             = Inr (tabulate [B, H, W, C] (\<lambda>idx. entry x (unpermute [0, 2, 3, 1] idx)))"
    by (rule K_permute_ok) (simp_all add: sx)
  show ?thesis
    by (rule that [of "tabulate [B, H, W, C] (\<lambda>idx. entry x (unpermute [0, 2, 3, 1] idx))"])
       (simp_all only: True p shape_tabulate wf_tabulate refl if_True simp_thms)
next
  case False
  show ?thesis by (rule that [of x]) (use False assms in simp_all)
qed

lemma restore_layout:
  assumes "shape y = [B, H, W, v]"
  obtains y' where
    "(if (ax::int) = 1 then K_permute_dimensions y [0, 3, 1, 2] else Inr y) = Inr y'"
    "shape y' = (if ax = 1 then [B, v, H, W] else [B, H, W, v])"
    "wf_tensor y \<Longrightarrow> wf_tensor y'"
proof (cases "ax = 1")
  case True
  have p: "K_permute_dimensions y [0, 3, 1, 2]
             = Inr (tabulate [B, v, H, W] (\<lambda>idx. entry y (unpermute [0, 3, 1, 2] idx)))"
    by (rule K_permute_ok) (simp_all add: assms(1))
  show ?thesis
    by (rule that [of "tabulate [B, v, H, W] (\<lambda>idx. entry y (unpermute [0, 3, 1, 2] idx))"])
       (simp_all only: True p shape_tabulate wf_tabulate refl if_True simp_thms)
next
  case False
  show ?thesis by (rule that [of y]) (use False assms in simp_all)
qed

text \<open>
  Claim C6. For a layer constructed with integer depths, built for the spatial extent of
  the input, with \<open>num_heads\<close> dividing both depths, the forward pass on an input of
  shape \<open>(B, H, W, 2 * depth_k + depth_v)\<close> (channels first:
  \<open>(B, 2 * depth_k + depth_v, H, W)\<close>) returns a tensor of shape \<open>(B, H, W, depth_v)\<close>
  (channels first: \<open>(B, depth_v, H, W)\<close>): only the channel axis changes. This is also
  the shape that \<open>compute_output_shape\<close> announces. The instance of the specification is
  the input \<open>(2, 8, 8, 2 * 4 + 4)\<close> with four heads, with output \<open>(2, 8, 8, 4)\<close>.
\<close>

theorem call_output_shape:
  assumes i: "init (PyInt (int k)) (PyInt (int v)) (int n) rel strd fmt = Inr self0"
    and b: "build self0 s0 iw ih = Inr self"
    and s0: "s0 = (if axis self0 = 1 then [B0, C0, H, W] else [B0, H, W, C0])"
    and pos: "0 < n" "0 < k" and dv: "n dvd k" "n dvd v"
    and sh: "shape x = (if axis self0 = 1 then [B, k + k + v, H, W] else [B, H, W, k + k + v])"
    and wf: "wf_tensor x"
  shows "\<exists>y. call self x =
            (Inr y, self\<lparr>u_batch := Some (int B), u_height := Some (int H), u_width := Some (int W)\<rparr>)
      \<and> shape y = (if axis self0 = 1 then [B, v, H, W] else [B, H, W, v])
      \<and> wf_tensor y
      \<and> compute_output_shape self (map int (shape x)) = Inr (map int (shape y))"
proof -
  note f0 = init_fields [OF i]
  note f = build_inv [OF b s0 f0(1) f0(3)]
  have cfg: "depth_k self = int k" "depth_v self = int v" "num_heads self = int n"
    using f(1-3) f0(1-3) by simp_all
  have ax: "axis self = axis self0" by (rule f(5))
  have ax2: "axis self0 = 1 \<or> axis self0 = - 1" using f0(5) by simp
  obtain t where canon: "(if axis self = 1 then K_permute_dimensions x [0, 2, 3, 1] else Inr x) = Inr t"
    and t: "shape t = [B, H, W, k + k + v]" "wf_tensor t"
    unfolding ax by (rule canon_input [OF sh wf]) blast
  have rel: "0 < H \<and> 0 < W
        \<and> key_relative_w self = Some tw \<and> shape tw = [2 * W - 1, k div n]
        \<and> key_relative_h self = Some th \<and> shape th = [2 * H - 1, k div n]
        \<and> B * (2 * W - 1) = B * (2 * W - 1) \<and> B * (2 * H - 1) = B * (2 * H - 1)
        \<and> (B = B \<or> B = 1) \<and> (B = B \<or> B = 1)"
    if "relative self" "key_relative_w self = Some tw \<and> shape tw = [2 * W - 1, k div n]
                     \<and> key_relative_h self = Some th \<and> shape th = [2 * H - 1, k div n]" for tw th
    using that f(8) f(4) by simp
  obtain tw th where tabs: "relative self \<Longrightarrow>
       key_relative_w self = Some tw \<and> shape tw = [2 * W - 1, k div n]
       \<and> key_relative_h self = Some th \<and> shape th = [2 * H - 1, k div n]"
    using f(8) f(4) by (cases "relative self") auto
  obtain y0 where c: "call self x =
        (if axis self = 1 then K_permute_dimensions y0 [0, 3, 1, 2] else Inr y0,
         self\<lparr>u_batch := Some (int B), u_height := Some (int H), u_width := Some (int W)\<rparr>)"
    and y0: "shape y0 = [B, H, W, v]" "wf_tensor y0"
    by (rule call_shape [OF cfg pos dv f(6,7) canon t, of tw "2 * W - 1" th "2 * H - 1" B B])
       (use rel tabs in blast)+
  obtain y where r: "(if axis self = 1 then K_permute_dimensions y0 [0, 3, 1, 2] else Inr y0) = Inr y"
    and y: "shape y = (if axis self = 1 then [B, v, H, W] else [B, H, W, v])" "wf_tensor y"
    using restore_layout [OF y0(1), of "axis self"] y0(2) by metis
  have o: "compute_output_shape self (map int (shape x)) = Inr (map int (shape y))"
    using ax2 unfolding compute_output_shape_def Let_def
    by (auto simp: sh y ax cfg numeral_3_eq_3)
  show ?thesis using c r y o unfolding ax by auto
qed


theorem call_output_shape_witness:
  "\<exists>self0 self y.
      init (PyInt 4) (PyInt 4) 4 True (1, 1) ''channels_last'' = Inr self0
    \<and> build self0 [2, 8, 8, 12] real real = Inr self
    \<and> fst (call self \<lparr>shape = [2, 8, 8, 12], elems = replicate 1536 0\<rparr>) = Inr y
    \<and> shape y = [2, 8, 8, 4]"
proof -
  let ?x = "\<lparr>shape = [2, 8, 8, 12], elems = replicate 1536 (0::real)\<rparr>"
  obtain self0 where i: "init (PyInt 4) (PyInt 4) 4 True (1, 1) ''channels_last'' = Inr self0"
    by (simp add: init_def)
  have i': "init (PyInt (int 4)) (PyInt (int 4)) (int 4) True (1, 1) ''channels_last'' = Inr self0"
    using i by simp
  note f0 = init_fields [OF i]
  have "\<exists>self. build self0 [2, 8, 8, 12] real real = Inr self"
    unfolding build_def Let_def
    by (simp add: f0 py_floordiv_def py_pow_neg_half_def add_weight_def)
  then obtain self where b: "build self0 [2, 8, 8, 12] real real = Inr self" ..
  have "\<exists>y. call self ?x =
            (Inr y, self\<lparr>u_batch := Some (int 2), u_height := Some (int 8), u_width := Some (int 8)\<rparr>)
      \<and> shape y = (if axis self0 = 1 then [2, 4, 8, 8] else [2, 8, 8, 4])
      \<and> wf_tensor y
      \<and> compute_output_shape self (map int (shape ?x)) = Inr (map int (shape y))"
    by (rule call_output_shape [OF i' b, of 2 12]) (simp_all add: f0 wf_tensor_def)
  then obtain y where "fst (call self ?x) = Inr y" "shape y = [2, 8, 8, 4]"
    by (auto simp: f0)
  then show ?thesis using i b by blast
qed

section \<open>A call at another resolution\<close>







section \<open>Depths that the number of heads does not divide\<close>

lemma K_reshape_nat_fails:
  assumes "prod_list s \<noteq> length (elems t)"
  shows "K_reshape t (map int s) = Inl (InvalidArgumentError ''reshape'')"
proof -
  have f: "filter (\<lambda>d. d = - 1) (map int s) = []" by (induction s) auto
  have m: "map nat (map int s) = s" by (simp add: comp_def)
  have b: "\<not> (\<exists>d\<in>set (map int s). d < - 1)" by auto
  show ?thesis
    unfolding K_reshape_def using assms b by (simp add: f m del: map_map set_map)
qed

lemma split_heads_2d_nondivisible:
  assumes shp: "u_shape self = Some shp" "length shp = 4"
    and sh: "shape t = [B, H, W, C]" and wf: "wf_tensor t"
    and nh: "num_heads self = int nh" "0 < nh" "\<not> nh dvd C"
    and ne: "0 < B" "0 < H" "0 < W"
  shows "fst (split_heads_2d self t) = Inl (InvalidArgumentError ''reshape'')"
proof -
  have len: "length (elems t) = B * H * W * C" using wf sh by (simp add: wf_tensor_def)
  have "nh * (C div nh) \<noteq> C" using nh(3) by (metis dvd_triv_left)
  then have "B * H * W * (nh * (C div nh)) \<noteq> B * H * W * C" using ne by simp
  then have np: "prod_list [B, H, W, nh, C div nh] \<noteq> length (elems t)"
    by (simp add: len mult.assoc)
  have fd: "py_floordiv (int C) (int nh) = Inr (int (C div nh))"
    using nh(2) by (simp add: py_floordiv_def zdiv_int)
  have e: "[int B, int H, int W, int nh, int (C div nh)] = map int [B, H, W, nh, C div nh]" by simp
  have r: "K_reshape t [int B, int H, int W, int nh, int (C div nh)]
             = Inl (InvalidArgumentError ''reshape'')"
    unfolding e by (rule K_reshape_nat_fails [OF np])
  show ?thesis
    unfolding split_heads_2d_def
    by (simp add: shp K_shape_def sh Let_def nh(1) fd r del: One_nat_def)
qed

text \<open>
  Claim C3, as stated, fails: the constructor only checks that \<open>depth_k\<close> and
  \<open>depth_v\<close> are of type \<open>int\<close>. With \<open>depth_k = 5\<close> and \<open>num_heads = 4\<close> it
  returns a layer.
\<close>

theorem init_nondivisible_counterexample:
  "init (PyInt 5) (PyInt 4) 4 True (1, 1) ''channels_last''
     = Inr \<lparr>strides = (1, 1), depth_k = 5, depth_v = 4, num_heads = 4, relative = True,
            axis = - 1, u_shape = None, key_relative_w = None, key_relative_h = None,
            u_batch = None, u_height = None, u_width = None\<rparr>"
  by (simp add: init_def)

text \<open>
  Claim C3, as amended. Construction with integer depths succeeds whether or not
  \<open>num_heads\<close> divides \<open>depth_k\<close>. When it does not, every forward call of the built
  layer on a non-empty input of shape \<open>(B, H, W, 2 * depth_k + depth_v)\<close> fails, with the
  error of the backend's reshape in \<open>split_heads_2d\<close>, that is, after the input has
  been cut into query, key and value.
\<close>

theorem nondivisible_depth_fails_in_call:
  assumes nd: "0 < n" "\<not> n dvd k"
    and s0: "s0 = (if fmt = ''channels_first'' then [B0, C0, H0, W0] else [B0, H0, W0, C0])"
    and sh: "shape x = (if fmt = ''channels_first''
                        then [B, k + k + v, H, W] else [B, H, W, k + k + v])"
    and wf: "wf_tensor x"
    and ne: "0 < B" "0 < H" "0 < W"
  shows "case init (PyInt (int k)) (PyInt (int v)) (int n) rel strd fmt of
           Inl e \<Rightarrow> False
         | Inr self0 \<Rightarrow>
             (\<forall>self. build self0 s0 iw ih = Inr self
                \<longrightarrow> fst (call self x) = Inl (InvalidArgumentError ''reshape''))"
proof -
  obtain self0 where i: "init (PyInt (int k)) (PyInt (int v)) (int n) rel strd fmt = Inr self0"
    by (simp add: init_def)
  note f0 = init_fields [OF i]
  have ax: "(axis self0 = 1) = (fmt = ''channels_first'')" using f0(5) by simp
  have "fst (call self x) = Inl (InvalidArgumentError ''reshape'')"
    if b: "build self0 s0 iw ih = Inr self" for self
  proof -
    have s0': "s0 = (if axis self0 = 1 then [B0, C0, H0, W0] else [B0, H0, W0, C0])"
      using s0 ax by simp
    have sh': "shape x = (if axis self0 = 1 then [B, k + k + v, H, W] else [B, H, W, k + k + v])"
      using sh ax by simp
    note f = build_inv [OF b s0' f0(1) f0(3)]
    have cfg: "depth_k self = int k" "depth_v self = int v" "num_heads self = int n"
      using f(1-3) f0(1-3) by simp_all
    obtain t where canon: "(if axis self = 1 then K_permute_dimensions x [0, 2, 3, 1] else Inr x) = Inr t"
      and t: "shape t = [B, H, W, k + k + v]" "wf_tensor t"
      unfolding f(5) by (rule canon_input [OF sh' wf]) blast
    obtain q0 k0 v0 where sp: "tf_split t [int k, int k, int v] = Inr [q0, k0, v0]"
      and q0: "shape q0 = [B, H, W, k]" "wf_tensor q0"
      by (rule tf_split3_spec [OF t(1)]) blast
    have "fst (split_heads_2d self q0) = Inl (InvalidArgumentError ''reshape'')"
      by (rule split_heads_2d_nondivisible [OF f(6,7) q0 cfg(3) nd ne])
    then obtain self1 where s: "split_heads_2d self q0 = (Inl (InvalidArgumentError ''reshape''), self1)"
      by (cases "split_heads_2d self q0") simp
    have "call_qkv self x = (Inl (InvalidArgumentError ''reshape''), self1)"
      unfolding call_qkv_def by (simp add: canon cfg sp s)
    then show ?thesis
      unfolding call_def call_logits_def call_content_def by simp
  qed
  then show ?thesis using i by simp
qed

theorem nondivisible_depth_fails_in_call_witness:
  "case init (PyInt 5) (PyInt 4) 4 True (1, 1) ''channels_last'' of
     Inl e \<Rightarrow> False
   | Inr self0 \<Rightarrow>
       (\<exists>self. build self0 [2, 8, 8, 14] real real = Inr self)
       \<and> (\<forall>self. build self0 [2, 8, 8, 14] real real = Inr self
            \<longrightarrow> fst (call self \<lparr>shape = [2, 8, 8, 14], elems = replicate 1792 0\<rparr>)
                  = Inl (InvalidArgumentError ''reshape''))"
proof -
  let ?x = "\<lparr>shape = [2, 8, 8, 14], elems = replicate 1792 (0::real)\<rparr>"
  have "case init (PyInt (int 5)) (PyInt (int 4)) (int 4) True (1, 1) ''channels_last'' of
           Inl e \<Rightarrow> False
         | Inr self0 \<Rightarrow>
             (\<forall>self. build self0 [2, 8, 8, 14] real real = Inr self
                \<longrightarrow> fst (call self ?x) = Inl (InvalidArgumentError ''reshape''))"
    by (rule nondivisible_depth_fails_in_call [where ?B0.0 = 2 and ?H0.0 = 8 and ?W0.0 = 8
          and ?C0.0 = 14 and B = 2 and H = 8 and W = 8])
       (simp_all add: wf_tensor_def)
  moreover have "\<exists>self. build \<lparr>strides = (1, 1), depth_k = 5, depth_v = 4, num_heads = 4,
            relative = True, axis = - 1, u_shape = None, key_relative_w = None,
            key_relative_h = None, u_batch = None, u_height = None, u_width = None\<rparr>
          [2, 8, 8, 14] real real = Inr self"
    unfolding build_def Let_def
    by (simp add: py_floordiv_def py_pow_neg_half_def add_weight_def)
  ultimately show ?thesis by (simp add: init_def)
qed

end
